theory Spec2Isabelle
  imports Main
begin

section \<open>Data model (include/game.h)\<close>

text \<open>
  The two configuration macros of \<^verbatim>\<open>game.h\<close>. They are textual constants in the C
  source, so they are abbreviations here.
\<close>

abbreviation BOARD_SIZE :: int where
  "BOARD_SIZE \<equiv> 19"

abbreviation WIN_LENGTH :: int where
  "WIN_LENGTH \<equiv> 6"

text \<open>The enumeration \<^verbatim>\<open>Cell\<close> and the integer value of each enumerator.\<close>

datatype Cell = CELL_EMPTY | CELL_BLACK | CELL_WHITE

fun cell_int :: "Cell \<Rightarrow> int" where
  "cell_int CELL_EMPTY = 0"
| "cell_int CELL_BLACK = 1"
| "cell_int CELL_WHITE = 2"

text \<open>
  \<^verbatim>\<open>Move\<close> and \<^verbatim>\<open>GameState\<close>. The C fields of type \<^verbatim>\<open>int\<close> are integers; no
  operation below leaves the range of a 32-bit \<^verbatim>\<open>int\<close> on a state whose counters
  are in range, so no wrap-around is written out. The two arrays are total functions
  of the index. The code reads and writes \<^verbatim>\<open>cells\<close> only at indices that passed the
  range check, but for the anchor of \<^verbatim>\<open>check_win\<close>, which its callers take from the
  board; it reads and writes \<^verbatim>\<open>moves\<close> only at indices in
  \<open>[0, BOARD_SIZE * BOARD_SIZE)\<close> when \<open>0 \<le> moves_count \<le> BOARD_SIZE * BOARD_SIZE\<close>.
  A null \<^verbatim>\<open>game\<close> pointer, on which every function returns at once, has no
  counterpart here.
\<close>

record Move =
  row :: int
  col :: int
  player :: int

record GameState =
  cells :: "int \<Rightarrow> int \<Rightarrow> Cell"
  current_player :: int
  finished :: int
  winner :: int
  undo_count :: int
  moves_count :: int
  moves :: "int \<Rightarrow> Move"

section \<open>Rules engine (game.c)\<close>

text \<open>\<^verbatim>\<open>init_game\<close>: the structure is zeroed, every cell is empty, Black moves first.\<close>

definition init_game :: GameState where
  "init_game =
     \<lparr>cells = (\<lambda>r c. CELL_EMPTY),
      current_player = 1,
      finished = 0,
      winner = 0,
      undo_count = 0,
      moves_count = 0,
      moves = (\<lambda>i. \<lparr>row = 0, col = 0, player = 0\<rparr>)\<rparr>"

definition within_board :: "int \<Rightarrow> int \<Rightarrow> bool" where
  "within_board r c \<longleftrightarrow> r \<ge> 0 \<and> r < BOARD_SIZE \<and> c \<ge> 0 \<and> c < BOARD_SIZE"

definition switch_player :: "GameState \<Rightarrow> GameState" where
  "switch_player game = game\<lparr>current_player := (if current_player game = 1 then 2 else 1)\<rparr>"

definition board_full :: "GameState \<Rightarrow> bool" where
  "board_full game \<longleftrightarrow> moves_count game \<ge> BOARD_SIZE * BOARD_SIZE"

text \<open>Writing one cell of the two-dimensional array.\<close>

definition set_cell :: "(int \<Rightarrow> int \<Rightarrow> Cell) \<Rightarrow> int \<Rightarrow> int \<Rightarrow> Cell \<Rightarrow> (int \<Rightarrow> int \<Rightarrow> Cell)" where
  "set_cell b r c v = b(r := (b r)(c := v))"

text \<open>
  The direction tables of \<^verbatim>\<open>check_win\<close>: \<^verbatim>\<open>dr[4] = {0, 1, 1, -1}\<close> and
  \<^verbatim>\<open>dc[4] = {1, 0, 1, 1}\<close>. The loop index only takes the values 0 to 3.
\<close>

definition dr :: "nat \<Rightarrow> int" where
  "dr k = (if k = 0 then 0 else if k = 1 then 1 else if k = 2 then 1 else - 1)"

definition dc :: "nat \<Rightarrow> int" where
  "dc k = (if k = 0 then 1 else if k = 1 then 0 else if k = 2 then 1 else 1)"

text \<open>
  The two \<^verbatim>\<open>while\<close> loops of \<^verbatim>\<open>check_win\<close>: the first steps by \<open>+dr[k], +dc[k]\<close>,
  the second by \<open>-dr[k], -dc[k]\<close>. Each returns the counter.
\<close>

function win_walk_fwd :: "(int \<Rightarrow> int \<Rightarrow> Cell) \<Rightarrow> Cell \<Rightarrow> nat \<Rightarrow> int \<Rightarrow> int \<Rightarrow> int \<Rightarrow> int" where
  "win_walk_fwd b me k r c cnt =
     (if r \<ge> 0 \<and> r < BOARD_SIZE \<and> c \<ge> 0 \<and> c < BOARD_SIZE \<and> b r c = me
      then win_walk_fwd b me k (r + dr k) (c + dc k) (cnt + 1)
      else cnt)"
  by pat_completeness auto
termination
  by (relation "measure (\<lambda>(b, me, k, r, c, cnt).
        if k = 1 then nat (BOARD_SIZE - r) else nat (BOARD_SIZE - c))")
     (auto simp: dr_def dc_def)

function win_walk_bwd :: "(int \<Rightarrow> int \<Rightarrow> Cell) \<Rightarrow> Cell \<Rightarrow> nat \<Rightarrow> int \<Rightarrow> int \<Rightarrow> int \<Rightarrow> int" where
  "win_walk_bwd b me k r c cnt =
     (if r \<ge> 0 \<and> r < BOARD_SIZE \<and> c \<ge> 0 \<and> c < BOARD_SIZE \<and> b r c = me
      then win_walk_bwd b me k (r - dr k) (c - dc k) (cnt + 1)
      else cnt)"
  by pat_completeness auto
termination
  by (relation "measure (\<lambda>(b, me, k, r, c, cnt).
        if k = 1 then nat (r + 1) else nat (c + 1))")
     (auto simp: dr_def dc_def)

declare win_walk_fwd.simps [simp del]
declare win_walk_bwd.simps [simp del]

text \<open>
  The body of the \<^verbatim>\<open>for (k = 0; k < 4; k++)\<close> loop with its early return, over the
  remaining indices. On a win the field \<^verbatim>\<open>winner\<close> is assigned the enumerator
  \<^verbatim>\<open>me\<close>.
\<close>

fun check_win_loop :: "GameState \<Rightarrow> Cell \<Rightarrow> int \<Rightarrow> int \<Rightarrow> nat list \<Rightarrow> int \<times> GameState" where
  "check_win_loop game me last_row last_col [] = (0, game)"
| "check_win_loop game me last_row last_col (k # ks) =
     (let cnt = 1;
          cnt = win_walk_fwd (cells game) me k (last_row + dr k) (last_col + dc k) cnt;
          cnt = win_walk_bwd (cells game) me k (last_row - dr k) (last_col - dc k) cnt
      in if cnt \<ge> WIN_LENGTH then (1, game\<lparr>winner := cell_int me\<rparr>)
         else check_win_loop game me last_row last_col ks)"

definition check_win :: "GameState \<Rightarrow> int \<Rightarrow> int \<Rightarrow> int \<times> GameState" where
  "check_win game last_row last_col =
     (let me = cells game last_row last_col
      in if me = CELL_EMPTY then (0, game)
         else check_win_loop game me last_row last_col [0, 1, 2, 3])"

text \<open>
  \<^verbatim>\<open>place_stone\<close>. The result is the returned \<^verbatim>\<open>int\<close> and the state behind the
  pointer after the call.
\<close>

definition place_stone :: "GameState \<Rightarrow> int \<Rightarrow> int \<Rightarrow> int \<times> GameState" where
  "place_stone game r c =
     (if finished game \<noteq> 0 then (0, game)
      else if \<not> within_board r c then (0, game)
      else if cells game r c \<noteq> CELL_EMPTY then (0, game)
      else
        let g1 = game\<lparr>cells := set_cell (cells game) r c
                        (if current_player game = 1 then CELL_BLACK else CELL_WHITE)\<rparr>;
            g2 = (if moves_count g1 < BOARD_SIZE * BOARD_SIZE
                  then g1\<lparr>moves := (moves g1)(moves_count g1 :=
                                \<lparr>row = r, col = c, player = current_player g1\<rparr>),
                          moves_count := moves_count g1 + 1\<rparr>
                  else g1);
            (w, g3) = check_win g2 r c
        in if w \<noteq> 0 then (1, g3\<lparr>finished := 1, winner := current_player g3\<rparr>)
           else if moves_count g3 = BOARD_SIZE * BOARD_SIZE
                then (1, g3\<lparr>finished := 1, winner := 0\<rparr>)
                else (1, switch_player g3))"

text \<open>\<^verbatim>\<open>undo_last_move\<close>.\<close>

definition undo_last_move :: "GameState \<Rightarrow> int \<times> GameState" where
  "undo_last_move game =
     (if moves_count game \<le> 0 then (0, game)
      else
        let last = moves game (moves_count game - 1);
            g1 = (if within_board (row last) (col last)
                  then game\<lparr>cells := set_cell (cells game) (row last) (col last) CELL_EMPTY\<rparr>
                  else game);
            g2 = g1\<lparr>moves_count := moves_count g1 - 1\<rparr>;
            g3 = g2\<lparr>current_player := player last\<rparr>;
            g4 = (if moves_count g3 \<le> 0 then g3\<lparr>current_player := 1\<rparr> else g3)
        in (1, g4\<lparr>finished := 0, winner := 0\<rparr>))"

section \<open>AI engine (ai.c)\<close>

text \<open>
  The table \<^verbatim>\<open>directions[4][2] = {{1,0},{0,1},{1,1},{1,-1}}\<close>, declared with the same
  initialiser in \<^verbatim>\<open>evaluate_pos\<close> and in \<^verbatim>\<open>ai_move\<close>.
\<close>

definition directions :: "nat \<Rightarrow> int \<times> int" where
  "directions d =
     (if d = 0 then (1, 0) else if d = 1 then (0, 1) else if d = 2 then (1, 1) else (1, - 1))"

text \<open>
  The counting loops of \<^verbatim>\<open>ai.c\<close>:
  \<^verbatim>\<open>while (within_board(r, c) && game->cells[r][c] == type) { cnt++; r += dr; c += dc; }\<close>
  and the same with \<open>-=\<close>, where \<open>dr, dc\<close> are row \<open>d\<close> of the table.
\<close>

function run_fwd :: "(int \<Rightarrow> int \<Rightarrow> Cell) \<Rightarrow> Cell \<Rightarrow> nat \<Rightarrow> int \<Rightarrow> int \<Rightarrow> int \<Rightarrow> int" where
  "run_fwd b ty d r c cnt =
     (if within_board r c \<and> b r c = ty
      then run_fwd b ty d (r + fst (directions d)) (c + snd (directions d)) (cnt + 1)
      else cnt)"
  by pat_completeness auto
termination
  by (relation "measure (\<lambda>(b, ty, d, r, c, cnt).
        if d = 1 then nat (BOARD_SIZE - c) else nat (BOARD_SIZE - r))")
     (auto simp: directions_def within_board_def)

function run_bwd :: "(int \<Rightarrow> int \<Rightarrow> Cell) \<Rightarrow> Cell \<Rightarrow> nat \<Rightarrow> int \<Rightarrow> int \<Rightarrow> int \<Rightarrow> int" where
  "run_bwd b ty d r c cnt =
     (if within_board r c \<and> b r c = ty
      then run_bwd b ty d (r - fst (directions d)) (c - snd (directions d)) (cnt + 1)
      else cnt)"
  by pat_completeness auto
termination
  by (relation "measure (\<lambda>(b, ty, d, r, c, cnt).
        if d = 1 then nat (c + 1) else nat (r + 1))")
     (auto simp: directions_def within_board_def)

declare run_fwd.simps [simp del]
declare run_bwd.simps [simp del]

text \<open>\<^verbatim>\<open>evaluate_pos\<close>: the loop over the four directions, then the function.\<close>

fun evaluate_pos_loop ::
  "GameState \<Rightarrow> int \<Rightarrow> int \<Rightarrow> Cell \<Rightarrow> Cell \<Rightarrow> nat list \<Rightarrow> int \<Rightarrow> int" where
  "evaluate_pos_loop game r c self_type opp_type [] score = score"
| "evaluate_pos_loop game r c self_type opp_type (d # ds) score =
     (let drow = fst (directions d);
          dcol = snd (directions d);
          self_cnt = 1;
          self_cnt = run_fwd (cells game) self_type d (r + drow) (c + dcol) self_cnt;
          self_cnt = run_bwd (cells game) self_type d (r - drow) (c - dcol) self_cnt;
          opp_cnt = 1;
          opp_cnt = run_fwd (cells game) opp_type d (r + drow) (c + dcol) opp_cnt;
          opp_cnt = run_bwd (cells game) opp_type d (r - drow) (c - dcol) opp_cnt;
          score = (if self_cnt \<ge> WIN_LENGTH then score + 100000
                   else score + self_cnt * self_cnt * 10);
          score = (if opp_cnt \<ge> WIN_LENGTH then score + 90000
                   else score + opp_cnt * opp_cnt * 9)
      in evaluate_pos_loop game r c self_type opp_type ds score)"

definition evaluate_pos :: "GameState \<Rightarrow> int \<Rightarrow> int \<Rightarrow> int \<Rightarrow> int" where
  "evaluate_pos game r c p =
     (let self_type = (if p = 1 then CELL_BLACK else CELL_WHITE);
          opp_type = (if p = 1 then CELL_WHITE else CELL_BLACK)
      in evaluate_pos_loop game r c self_type opp_type [0, 1, 2, 3] 0)"

text \<open>
  The values of a loop variable in \<^verbatim>\<open>for (x = 0; x < BOARD_SIZE; x++)\<close>.
\<close>

definition board_range :: "int list" where
  "board_range = [0 .. BOARD_SIZE - 1]"

text \<open>
  The random source. \<^verbatim>\<open>rand()\<close> returns a non-negative \<^verbatim>\<open>int\<close>; the sequence of
  values it returns is a function \<open>rnd\<close> of the number of calls made so far, and the
  functions that call \<^verbatim>\<open>rand()\<close> take and return that number.
\<close>

type_synonym rand_source = "nat \<Rightarrow> nat"

text \<open>
  \<^verbatim>\<open>random_move\<close>. The first pair of loops counts the empty cells. The second pair
  returns from the function inside the inner loop: \<open>Inl\<close> is that return (with the
  state after \<^verbatim>\<open>place_stone\<close>), \<open>Inr\<close> carries \<^verbatim>\<open>pick\<close> to the next iteration.
\<close>

definition count_empty :: "GameState \<Rightarrow> int" where
  "count_empty game =
     fold (\<lambda>r n. fold (\<lambda>c n. if cells game r c = CELL_EMPTY then n + 1 else n) board_range n)
       board_range 0"

fun random_move_cols :: "GameState \<Rightarrow> int \<Rightarrow> int list \<Rightarrow> int \<Rightarrow> GameState + int" where
  "random_move_cols game r [] pick = Inr pick"
| "random_move_cols game r (c # cs) pick =
     (if cells game r c = CELL_EMPTY
      then (if pick = 0 then Inl (snd (place_stone game r c))
            else random_move_cols game r cs (pick - 1))
      else random_move_cols game r cs pick)"

fun random_move_rows :: "GameState \<Rightarrow> int list \<Rightarrow> int \<Rightarrow> GameState + int" where
  "random_move_rows game [] pick = Inr pick"
| "random_move_rows game (r # rs) pick =
     (case random_move_cols game r board_range pick of
        Inl g \<Rightarrow> Inl g
      | Inr pick' \<Rightarrow> random_move_rows game rs pick')"

definition random_move :: "GameState \<Rightarrow> rand_source \<Rightarrow> nat \<Rightarrow> int \<times> GameState \<times> nat" where
  "random_move game rnd i =
     (let empty_count = count_empty game
      in if empty_count = 0 then (0, game, i)
         else
           let pick = int (rnd i) mod empty_count
           in case random_move_rows game board_range pick of
                Inl g \<Rightarrow> (1, g, i + 1)
              | Inr pick' \<Rightarrow> (0, game, i + 1))"

text \<open>
  The scoring loops of difficulty 2 and of the fallback of difficulty 3 differ only in
  the modulus of the jitter (5 and 3). The loop state is
  \<open>(best_row, best_col, best_score)\<close> and the number of \<^verbatim>\<open>rand()\<close> calls.
\<close>

definition best_step ::
  "GameState \<Rightarrow> rand_source \<Rightarrow> int \<Rightarrow> int \<Rightarrow> int \<Rightarrow> (int \<times> int \<times> int) \<times> nat \<Rightarrow> (int \<times> int \<times> int) \<times> nat" where
  "best_step game rnd jitter r c s =
     (case s of ((best_row, best_col, best_score), i) \<Rightarrow>
        if cells game r c = CELL_EMPTY
        then (let score = evaluate_pos game r c (current_player game);
                  score = score + int (rnd i) mod jitter
              in if score > best_score then ((r, c, score), i + 1)
                 else ((best_row, best_col, best_score), i + 1))
        else s)"

definition best_scan ::
  "GameState \<Rightarrow> rand_source \<Rightarrow> int \<Rightarrow> nat \<Rightarrow> (int \<times> int \<times> int) \<times> nat" where
  "best_scan game rnd jitter i =
     fold (\<lambda>r s. fold (\<lambda>c s. best_step game rnd jitter r c s) board_range s)
       board_range ((- 1, - 1, - 1), i)"

text \<open>
  The first pair of loops of difficulty 3. The loop state is
  \<open>((win_row, win_col), (block_row, block_col))\<close>; \<^verbatim>\<open>temp\<close> is a copy of the game.
  The inner loop stops (\<^verbatim>\<open>break\<close>) at a winning cell, and the outer loop stops when
  \<^verbatim>\<open>win_row != -1\<close>.
\<close>

fun tactic_cols ::
  "GameState \<Rightarrow> int \<Rightarrow> int \<Rightarrow> int \<Rightarrow> int list \<Rightarrow> (int \<times> int) \<times> (int \<times> int) \<Rightarrow> (int \<times> int) \<times> (int \<times> int)" where
  "tactic_cols game self opp r [] s = s"
| "tactic_cols game self opp r (c # cs) s =
     (if cells game r c \<noteq> CELL_EMPTY then tactic_cols game self opp r cs s
      else
        let temp = snd (place_stone game r c)
        in if winner temp = self then ((r, c), snd s)
           else
             let temp = snd (place_stone (game\<lparr>current_player := opp\<rparr>) r c)
             in if winner temp = opp then tactic_cols game self opp r cs (fst s, (r, c))
                else tactic_cols game self opp r cs s)"

fun tactic_rows ::
  "GameState \<Rightarrow> int \<Rightarrow> int \<Rightarrow> int list \<Rightarrow> (int \<times> int) \<times> (int \<times> int) \<Rightarrow> (int \<times> int) \<times> (int \<times> int)" where
  "tactic_rows game self opp [] s = s"
| "tactic_rows game self opp (r # rs) s =
     (let s' = tactic_cols game self opp r board_range s
      in if fst (fst s') \<noteq> - 1 then s' else tactic_rows game self opp rs s')"

text \<open>
  The threat loops of difficulty 3: the longest run of the opponent through the cell
  over the four directions, and the scan keeping the first cell with the largest one.
\<close>

fun threat_dirs :: "(int \<Rightarrow> int \<Rightarrow> Cell) \<Rightarrow> Cell \<Rightarrow> int \<Rightarrow> int \<Rightarrow> nat list \<Rightarrow> int \<Rightarrow> int" where
  "threat_dirs b ty r c [] max_len = max_len"
| "threat_dirs b ty r c (d # ds) max_len =
     (let drow = fst (directions d);
          dcol = snd (directions d);
          cnt = 1;
          cnt = run_fwd b ty d (r + drow) (c + dcol) cnt;
          cnt = run_bwd b ty d (r - drow) (c - dcol) cnt
      in threat_dirs b ty r c ds (if cnt > max_len then cnt else max_len))"

definition threat_step :: "GameState \<Rightarrow> int \<Rightarrow> int \<Rightarrow> int \<Rightarrow> int \<times> int \<times> int \<Rightarrow> int \<times> int \<times> int" where
  "threat_step game opp r c s =
     (case s of (threat_row, threat_col, threat_len) \<Rightarrow>
        if cells game r c \<noteq> CELL_EMPTY then s
        else
          let max_len = threat_dirs (cells game)
                          (if opp = 1 then CELL_BLACK else CELL_WHITE) r c [0, 1, 2, 3] 1
          in if max_len > threat_len then (r, c, max_len) else s)"

definition threat_scan :: "GameState \<Rightarrow> int \<Rightarrow> int \<times> int \<times> int" where
  "threat_scan game opp =
     fold (\<lambda>r s. fold (\<lambda>c s. threat_step game opp r c s) board_range s)
       board_range (- 1, - 1, 0)"

text \<open>
  The end of difficulty 2 and of difficulty 3: the scoring scan, then
  \<^verbatim>\<open>place_stone\<close> on the best cell, or \<^verbatim>\<open>random_move\<close> when there is none.
\<close>

definition best_move :: "GameState \<Rightarrow> rand_source \<Rightarrow> int \<Rightarrow> nat \<Rightarrow> GameState \<times> nat" where
  "best_move game rnd jitter i =
     (case best_scan game rnd jitter i of ((best_row, best_col, best_score), i') \<Rightarrow>
        if best_row \<ge> 0 \<and> best_col \<ge> 0
        then (snd (place_stone game best_row best_col), i')
        else (case random_move game rnd i' of (ret, g, i'') \<Rightarrow> (g, i'')))"

text \<open>
  \<^verbatim>\<open>ai_move\<close>. The result is the state behind the pointer after the call and the
  number of \<^verbatim>\<open>rand()\<close> calls made so far. The one-time \<^verbatim>\<open>srand\<close> only fixes which
  sequence \<open>rnd\<close> is.
\<close>

definition ai_move :: "GameState \<Rightarrow> int \<Rightarrow> rand_source \<Rightarrow> nat \<Rightarrow> GameState \<times> nat" where
  "ai_move game difficulty rnd i =
     (if finished game \<noteq> 0 then (game, i)
      else if difficulty \<le> 1
      then (case random_move game rnd i of (ret, g, i') \<Rightarrow> (g, i'))
      else if difficulty = 2 then best_move game rnd 5 i
      else
        let self = current_player game;
            opp = (if self = 1 then 2 else 1);
            s = tactic_rows game self opp board_range ((- 1, - 1), (- 1, - 1));
            win_row = fst (fst s); win_col = snd (fst s);
            block_row = fst (snd s); block_col = snd (snd s)
        in if win_row \<noteq> - 1 then (snd (place_stone game win_row win_col), i)
           else if block_row \<noteq> - 1 then (snd (place_stone game block_row block_col), i)
           else
             case threat_scan game opp of (threat_row, threat_col, threat_len) \<Rightarrow>
               let threat_threshold = (if WIN_LENGTH > 2 then WIN_LENGTH - 2 else 2)
               in if threat_len \<ge> threat_threshold \<and> threat_row \<ge> 0 \<and> threat_col \<ge> 0
                  then (snd (place_stone game threat_row threat_col), i)
                  else best_move game rnd 3 i)"

section \<open>Notions used to state the properties\<close>

text \<open>
  The move history of a state: the first \<^verbatim>\<open>moves_count\<close> entries of the array
  \<^verbatim>\<open>moves\<close>, in the order they were played.
\<close>

definition history :: "GameState \<Rightarrow> Move list" where
  "history g = map (moves g) [0 .. moves_count g - 1]"

text \<open>
  The cells of the board in row-major order, the order in which every pair of nested
  loops of the source visits them, and the number of stones on the board.
\<close>

definition board_positions :: "(int \<times> int) list" where
  "board_positions = concat (map (\<lambda>r. map (\<lambda>c. (r, c)) board_range) board_range)"

definition stone_count :: "GameState \<Rightarrow> nat" where
  "stone_count g = length (filter (\<lambda>(r, c). cells g r c \<noteq> CELL_EMPTY) board_positions)"

text \<open>
  The states of a game: those that a sequence of \<^verbatim>\<open>place_stone\<close> and
  \<^verbatim>\<open>undo_last_move\<close> calls produces from \<^verbatim>\<open>init_game\<close>. A call that fails leaves the
  state as it was, so the sequences with failing calls produce no further states.
\<close>

datatype Op = Place int int | Undo

fun apply_op :: "Op \<Rightarrow> GameState \<Rightarrow> GameState" where
  "apply_op (Place r c) g = snd (place_stone g r c)"
| "apply_op Undo g = snd (undo_last_move g)"

definition play :: "Op list \<Rightarrow> GameState" where
  "play ops = fold apply_op ops init_game"

text \<open>
  The invariant behind the count: the history is within the capacity of the array, its
  moves lie on the board on pairwise different cells that hold a stone, every stone on
  the board is in the history, an unfinished game has no winner, and Black is to move
  when the history is empty.
\<close>

definition wf_state :: "GameState \<Rightarrow> bool" where
  "wf_state g \<longleftrightarrow>
     0 \<le> moves_count g \<and> moves_count g \<le> BOARD_SIZE * BOARD_SIZE
     \<and> (\<forall>i\<in>{0..<moves_count g}.
          within_board (row (moves g i)) (col (moves g i))
          \<and> cells g (row (moves g i)) (col (moves g i)) \<noteq> CELL_EMPTY)
     \<and> (\<forall>i\<in>{0..<moves_count g}. \<forall>j\<in>{0..<moves_count g}.
          i \<noteq> j \<longrightarrow> (row (moves g i), col (moves g i)) \<noteq> (row (moves g j), col (moves g j)))
     \<and> (\<forall>(r, c)\<in>set board_positions.
          cells g r c \<noteq> CELL_EMPTY \<longrightarrow>
          (\<exists>i\<in>{0..<moves_count g}. row (moves g i) = r \<and> col (moves g i) = c))
     \<and> (finished g = 0 \<longrightarrow> winner g = 0)
     \<and> (moves_count g = 0 \<longrightarrow> current_player g = 1)"

text \<open>
  The state in the middle of a successful \<^verbatim>\<open>place_stone\<close>: the stone is written and
  the move recorded, the outcome not yet decided.
\<close>

definition stone_put :: "GameState \<Rightarrow> int \<Rightarrow> int \<Rightarrow> GameState" where
  "stone_put g r c =
     (let g1 = g\<lparr>cells := set_cell (cells g) r c
                     (if current_player g = 1 then CELL_BLACK else CELL_WHITE)\<rparr>
      in if moves_count g < BOARD_SIZE * BOARD_SIZE
         then g1\<lparr>moves := (moves g)(moves_count g :=
                       \<lparr>row = r, col = c, player = current_player g\<rparr>),
                 moves_count := moves_count g + 1\<rparr>
         else g1)"

text \<open>
  Runs, as the specification words them. A cell counts for a colour when it is on the
  board and holds that colour. From an anchor \<open>(r, c)\<close> and a step \<open>(sr, sc)\<close>,
  \<open>contiguous\<close> is the number of cells of the colour met one after the other, starting
  next to the anchor, before the first cell that does not count. The run of an axis
  through the anchor is the anchor itself plus what is contiguous in both directions.
\<close>

definition stone_at :: "(int \<Rightarrow> int \<Rightarrow> Cell) \<Rightarrow> Cell \<Rightarrow> int \<Rightarrow> int \<Rightarrow> bool" where
  "stone_at b ty r c \<longleftrightarrow> within_board r c \<and> b r c = ty"

definition contiguous :: "(int \<Rightarrow> int \<Rightarrow> Cell) \<Rightarrow> Cell \<Rightarrow> int \<Rightarrow> int \<Rightarrow> int \<Rightarrow> int \<Rightarrow> int" where
  "contiguous b ty r c sr sc =
     int (length (takeWhile (\<lambda>i. stone_at b ty (r + i * sr) (c + i * sc)) [1 .. BOARD_SIZE]))"

definition axis_run :: "(int \<Rightarrow> int \<Rightarrow> Cell) \<Rightarrow> Cell \<Rightarrow> int \<Rightarrow> int \<Rightarrow> int \<Rightarrow> int \<Rightarrow> int" where
  "axis_run b ty r c sr sc = 1 + contiguous b ty r c sr sc + contiguous b ty r c (- sr) (- sc)"

text \<open>The four axes: horizontal, vertical and the two diagonals.\<close>

definition axes :: "(int \<times> int) list" where
  "axes = [(0, 1), (1, 0), (1, 1), (1, - 1)]"

text \<open>
  Six stones of one colour in a line through \<open>(r, c)\<close>: along one of the axes there are
  \<^verbatim>\<open>WIN_LENGTH\<close> consecutive cells, \<open>(r, c)\<close> being the one at offset \<open>k\<close>, that all count
  for the colour.
\<close>

definition six_in_line :: "(int \<Rightarrow> int \<Rightarrow> Cell) \<Rightarrow> Cell \<Rightarrow> int \<Rightarrow> int \<Rightarrow> bool" where
  "six_in_line b ty r c \<longleftrightarrow>
     (\<exists>(sr, sc)\<in>set axes. \<exists>k\<in>{0 .. WIN_LENGTH - 1}. \<forall>i\<in>{0 .. WIN_LENGTH - 1}.
        stone_at b ty (r + (i - k) * sr) (c + (i - k) * sc))"

text \<open>The empty cells of the board, in row-major order.\<close>

definition empty_cells :: "GameState \<Rightarrow> (int \<times> int) list" where
  "empty_cells g = filter (\<lambda>(r, c). cells g r c = CELL_EMPTY) board_positions"

text \<open>The colour of a side and of its opponent, as \<^verbatim>\<open>ai.c\<close> computes them.\<close>

definition side_type :: "int \<Rightarrow> Cell" where
  "side_type p = (if p = 1 then CELL_BLACK else CELL_WHITE)"

definition other_type :: "int \<Rightarrow> Cell" where
  "other_type p = (if p = 1 then CELL_WHITE else CELL_BLACK)"

text \<open>
  The heuristic score of the specification: over the four axes, the sum of the weight of
  the own run through the cell and the weight of the opponent's run through it.
\<close>

definition heuristic_score :: "(int \<Rightarrow> int \<Rightarrow> Cell) \<Rightarrow> int \<Rightarrow> int \<Rightarrow> int \<Rightarrow> int" where
  "heuristic_score b p r c =
     sum_list (map (\<lambda>(sr, sc).
         (let self_run = axis_run b (side_type p) r c sr sc;
              opp_run = axis_run b (other_type p) r c sr sc
          in (if self_run \<ge> WIN_LENGTH then 100000 else self_run ^ 2 * 10)
             + (if opp_run \<ge> WIN_LENGTH then 90000 else opp_run ^ 2 * 9)))
       axes)"

text \<open>
  The total of the \<open>j\<close>-th empty cell in a scoring scan that starts after \<open>i\<close> calls of
  \<^verbatim>\<open>rand()\<close>: its heuristic score for the side to move plus the jitter, which is the
  \<open>j\<close>-th random value of the scan modulo the jitter range.
\<close>

definition jittered_score :: "GameState \<Rightarrow> rand_source \<Rightarrow> int \<Rightarrow> nat \<Rightarrow> nat \<Rightarrow> int" where
  "jittered_score g rnd jitter i j =
     (case empty_cells g ! j of (r, c) \<Rightarrow>
        heuristic_score (cells g) (current_player g) r c + int (rnd (i + j)) mod jitter)"

text \<open>
  The simulations of difficulty 3 on an empty cell: the side to move is the winner after
  its own placement on a copy; the opponent is the winner after a placement on a copy
  in which it has the turn. The cells that pass, in row-major order.
\<close>

definition ai_wins_at :: "GameState \<Rightarrow> int \<Rightarrow> int \<Rightarrow> bool" where
  "ai_wins_at g r c \<longleftrightarrow>
     cells g r c = CELL_EMPTY \<and> winner (snd (place_stone g r c)) = current_player g"

definition ai_blocks_at :: "GameState \<Rightarrow> int \<Rightarrow> int \<Rightarrow> bool" where
  "ai_blocks_at g r c \<longleftrightarrow>
     cells g r c = CELL_EMPTY
     \<and> (let opp = (if current_player g = 1 then 2 else 1)
        in winner (snd (place_stone (g\<lparr>current_player := opp\<rparr>) r c)) = opp)"

definition winning_cells :: "GameState \<Rightarrow> (int \<times> int) list" where
  "winning_cells g = filter (\<lambda>(r, c). ai_wins_at g r c) board_positions"

definition blocking_cells :: "GameState \<Rightarrow> (int \<times> int) list" where
  "blocking_cells g = filter (\<lambda>(r, c). ai_blocks_at g r c) board_positions"

text \<open>Row-major order on cells: an earlier row, or the same row and no later column.\<close>

definition row_major_le :: "int \<times> int \<Rightarrow> int \<times> int \<Rightarrow> bool" where
  "row_major_le p q \<longleftrightarrow> fst p < fst q \<or> (fst p = fst q \<and> snd p \<le> snd q)"

section \<open>States used in the examples\<close>

text \<open>
  Black has just completed the row \<open>(0,0) .. (0,5)\<close> with the eleventh move; White
  holds \<open>(1,0) .. (1,4)\<close>. Move \<open>i\<close> went to row \<open>i mod 2\<close>, column \<open>i div 2\<close>.
\<close>

definition six_black :: GameState where
  "six_black =
     \<lparr>cells = (\<lambda>r c. if r = 0 \<and> 0 \<le> c \<and> c < 6 then CELL_BLACK
                      else if r = 1 \<and> 0 \<le> c \<and> c < 5 then CELL_WHITE else CELL_EMPTY),
      current_player = 1,
      finished = 1,
      winner = 1,
      undo_count = 0,
      moves_count = 11,
      moves = (\<lambda>i. \<lparr>row = i mod 2, col = i div 2, player = 1 + i mod 2\<rparr>)\<rparr>"

text \<open>
  The same position before the outcome is recorded, as the caller of \<^verbatim>\<open>check_win\<close>
  in \<^verbatim>\<open>main.c\<close> has it after writing the stone and the move itself.
\<close>

definition six_pending :: GameState where
  "six_pending = six_black\<lparr>finished := 0, winner := 0\<rparr>"

text \<open>The position one move earlier: Black is to play the eleventh move.\<close>

definition five_black :: GameState where
  "five_black =
     \<lparr>cells = (\<lambda>r c. if r = 0 \<and> 0 \<le> c \<and> c < 5 then CELL_BLACK
                      else if r = 1 \<and> 0 \<le> c \<and> c < 5 then CELL_WHITE else CELL_EMPTY),
      current_player = 1,
      finished = 0,
      winner = 0,
      undo_count = 0,
      moves_count = 10,
      moves = (\<lambda>i. \<lparr>row = i mod 2, col = i div 2, player = 1 + i mod 2\<rparr>)\<rparr>"

text \<open>
  White is to move and has no stone on the board; Black holds \<open>(18,14) .. (18,18)\<close>,
  a row of five whose only open end is \<open>(18,13)\<close>.
\<close>

definition black_threat :: GameState where
  "black_threat =
     \<lparr>cells = (\<lambda>r c. if r = 18 \<and> 14 \<le> c \<and> c \<le> 18 then CELL_BLACK else CELL_EMPTY),
      current_player = 2,
      finished = 0,
      winner = 0,
      undo_count = 0,
      moves_count = 5,
      moves = (\<lambda>i. \<lparr>row = 18, col = 14 + i, player = 1\<rparr>)\<rparr>"

text \<open>A random source that always returns 0.\<close>

definition zero_source :: rand_source where
  "zero_source = (\<lambda>n. 0)"

section \<open>The rules engine: results and frame\<close>

lemma place_stone_fail:
  "finished g \<noteq> 0 \<or> \<not> within_board r c \<or> cells g r c \<noteq> CELL_EMPTY \<Longrightarrow>
   place_stone g r c = (0, g)"
  by (auto simp: place_stone_def)

lemma check_win_loop_fst:
  "fst (check_win_loop g me r c ks) = 0 \<or> fst (check_win_loop g me r c ks) = 1"
  by (induction ks) (auto simp: Let_def)

lemma check_win_loop_snd:
  "snd (check_win_loop g me r c ks) =
     (if fst (check_win_loop g me r c ks) = 1 then g\<lparr>winner := cell_int me\<rparr> else g)"
  by (induction ks) (auto simp: Let_def)

lemma check_win_fst: "fst (check_win g r c) = 0 \<or> fst (check_win g r c) = 1"
  using check_win_loop_fst by (auto simp: check_win_def Let_def)

lemma check_win_snd:
  "snd (check_win g r c) =
     (if fst (check_win g r c) = 1 then g\<lparr>winner := cell_int (cells g r c)\<rparr> else g)"
  using check_win_loop_snd[of g "cells g r c" r c "[0, 1, 2, 3]"]
  by (auto simp: check_win_def Let_def)

lemma place_stone_ok:
  "finished g = 0 \<Longrightarrow> within_board r c \<Longrightarrow> cells g r c = CELL_EMPTY \<Longrightarrow>
   fst (place_stone g r c) = 1"
  by (auto simp: place_stone_def Let_def split: prod.splits)

lemma init_place00:
  "place_stone init_game 0 0 =
     (1, init_game\<lparr>cells := set_cell (cells init_game) 0 0 CELL_BLACK,
                    moves := (moves init_game)(0 := \<lparr>row = 0, col = 0, player = 1\<rparr>),
                    moves_count := 1, current_player := 2\<rparr>)"
  by (simp add: place_stone_def init_game_def within_board_def Let_def check_win_def
        set_cell_def win_walk_fwd.simps win_walk_bwd.simps dr_def dc_def switch_player_def)

lemma check_win_six: "check_win six_pending 0 5 = (1, six_pending\<lparr>winner := 1\<rparr>)"
  by (simp add: check_win_def six_pending_def six_black_def Let_def
        win_walk_fwd.simps win_walk_bwd.simps dr_def dc_def)

text \<open>
  C1 (as amended). A call of \<^verbatim>\<open>place_stone\<close> on a finished game, on coordinates outside
  the board or on a cell that is not empty returns 0 and leaves the whole state as it
  was; every other call returns 1. The three causes of failure share the one result 0.
\<close>

theorem place_stone_failure:
  "(finished g \<noteq> 0 \<or> \<not> within_board r c \<or> cells g r c \<noteq> CELL_EMPTY \<longrightarrow>
      place_stone g r c = (0, g))
   \<and> (finished g = 0 \<and> within_board r c \<and> cells g r c = CELL_EMPTY \<longrightarrow>
      fst (place_stone g r c) = 1)"
  using place_stone_fail[of g r c] place_stone_ok[of g r c] by blast

theorem place_stone_failure_witness:
  "place_stone (init_game\<lparr>finished := 1\<rparr>) 0 0 = (0, init_game\<lparr>finished := 1\<rparr>)
   \<and> place_stone init_game 19 0 = (0, init_game)
   \<and> place_stone six_black 0 0 = (0, six_black)
   \<and> fst (place_stone init_game 0 0) = 1"
  using place_stone_failure[of "init_game\<lparr>finished := 1\<rparr>" 0 0]
        place_stone_failure[of init_game 19 0]
        place_stone_failure[of six_black 0 0]
        place_stone_failure[of init_game 0 0]
  by (simp add: init_game_def within_board_def six_black_def)

text \<open>
  The claim as written asks for a result that tells the three errors apart. A finished
  game, a coordinate outside the board and an occupied cell all give the same result.
\<close>

theorem place_stone_error_counterexample:
  "finished (init_game\<lparr>finished := 1\<rparr>) \<noteq> 0
   \<and> \<not> within_board 19 0
   \<and> cells (snd (place_stone init_game 0 0)) 0 0 \<noteq> CELL_EMPTY
   \<and> fst (place_stone (init_game\<lparr>finished := 1\<rparr>) 0 0) = fst (place_stone init_game 19 0)
   \<and> fst (place_stone init_game 19 0) = fst (place_stone (snd (place_stone init_game 0 0)) 0 0)"
  by (simp add: init_place00) (simp add: place_stone_def init_game_def within_board_def set_cell_def)

text \<open>
  C4. With a non-empty history \<^verbatim>\<open>undo_last_move\<close> returns 1, drops the last move from
  the history, empties the cell of that move and no other, gives the turn to the mover
  of that move (to Black when the history is empty afterwards), and clears
  \<^verbatim>\<open>finished\<close> and \<^verbatim>\<open>winner\<close> whatever they were. With an empty history it returns 0
  and changes nothing.
\<close>

theorem undo_last_move_spec:
  "(0 < moves_count g \<longrightarrow>
      (let last = moves g (moves_count g - 1); g' = snd (undo_last_move g)
       in fst (undo_last_move g) = 1
          \<and> moves_count g' = moves_count g - 1
          \<and> history g' = butlast (history g)
          \<and> (within_board (row last) (col last) \<longrightarrow> cells g' (row last) (col last) = CELL_EMPTY)
          \<and> (\<forall>r c. (r, c) \<noteq> (row last, col last) \<longrightarrow> cells g' r c = cells g r c)
          \<and> current_player g' = (if moves_count g' \<le> 0 then 1 else player last)
          \<and> finished g' = 0
          \<and> winner g' = 0
          \<and> undo_count g' = undo_count g
          \<and> moves g' = moves g))
   \<and> (moves_count g \<le> 0 \<longrightarrow> undo_last_move g = (0, g))"
proof -
  have "butlast (map (moves g) [0 .. moves_count g - 1]) = map (moves g) [0 .. moves_count g - 1 - 1]"
    if "0 < moves_count g"
    using that by (simp add: upto_rec2[of 0 "moves_count g - 1"])
  then show ?thesis
    by (auto simp: undo_last_move_def Let_def history_def set_cell_def)
qed

theorem undo_last_move_spec_witness:
  "0 < moves_count six_black
   \<and> fst (undo_last_move six_black) = 1
   \<and> moves_count (snd (undo_last_move six_black)) = 10
   \<and> cells (snd (undo_last_move six_black)) 0 5 = CELL_EMPTY
   \<and> current_player (snd (undo_last_move six_black)) = 1
   \<and> finished (snd (undo_last_move six_black)) = 0
   \<and> winner (snd (undo_last_move six_black)) = 0
   \<and> moves_count init_game \<le> 0
   \<and> undo_last_move init_game = (0, init_game)"
  using undo_last_move_spec[of six_black] undo_last_move_spec[of init_game]
  by (simp add: six_black_def init_game_def Let_def within_board_def)

section \<open>The board and the outcome of a placement\<close>

lemma set_board_range: "set board_range = {0..18}"
  by (simp add: board_range_def)

lemma distinct_board_range: "distinct board_range"
  by (simp add: board_range_def)

lemma set_board_positions: "set board_positions = {(r, c). within_board r c}"
  by (auto simp: board_positions_def set_board_range within_board_def image_iff)

lemma distinct_board_positions: "distinct board_positions"
  unfolding board_positions_def
  by (rule distinct_concat)
     (auto simp: distinct_map distinct_board_range inj_on_def)

lemma length_board_range: "length board_range = 19"
  by (simp add: board_range_def)

lemma length_board_positions: "length board_positions = 361"
  by (simp add: board_positions_def length_concat comp_def length_board_range sum_list_triv)

lemma place_stone_result:
  assumes "finished g = 0" "within_board r c" "cells g r c = CELL_EMPTY"
  shows "snd (place_stone g r c) =
     (if fst (check_win (stone_put g r c) r c) = 1
      then (stone_put g r c)\<lparr>finished := 1, winner := current_player g\<rparr>
      else if moves_count (stone_put g r c) = BOARD_SIZE * BOARD_SIZE
      then (stone_put g r c)\<lparr>finished := 1, winner := 0\<rparr>
      else (stone_put g r c)\<lparr>current_player := (if current_player g = 1 then 2 else 1)\<rparr>)"
proof -
  define g2 where "g2 = stone_put g r c"
  have cp: "current_player g2 = current_player g"
    by (simp add: g2_def stone_put_def Let_def)
  obtain w g3 where cw: "check_win g2 r c = (w, g3)" by (cases "check_win g2 r c")
  have w01: "w = 0 \<or> w = 1" using check_win_fst[of g2 r c] cw by simp
  have g3: "g3 = (if w = 1 then g2\<lparr>winner := cell_int (cells g2 r c)\<rparr> else g2)"
    using check_win_snd[of g2 r c] cw by simp
  have "snd (place_stone g r c) =
      (if w \<noteq> 0 then g3\<lparr>finished := 1, winner := current_player g3\<rparr>
           else if moves_count g3 = BOARD_SIZE * BOARD_SIZE
                then g3\<lparr>finished := 1, winner := 0\<rparr>
                else switch_player g3)"
    using assms cw unfolding place_stone_def g2_def stone_put_def
    by (simp add: Let_def split: if_splits)
  also have "\<dots> = (if w = 1 then g2\<lparr>finished := 1, winner := current_player g\<rparr>
         else if moves_count g2 = BOARD_SIZE * BOARD_SIZE then g2\<lparr>finished := 1, winner := 0\<rparr>
         else g2\<lparr>current_player := (if current_player g = 1 then 2 else 1)\<rparr>)"
    using w01 g3 cp by (auto simp: switch_player_def)
  finally show ?thesis using cw unfolding g2_def by simp
qed

section \<open>The invariant of the states of a game\<close>

lemma stone_count_card:
  "stone_count g = card {(r, c). within_board r c \<and> cells g r c \<noteq> CELL_EMPTY}"
proof -
  have "{x. (case x of (r, c) \<Rightarrow> cells g r c \<noteq> CELL_EMPTY)} \<inter> set board_positions
        = {(r, c). within_board r c \<and> cells g r c \<noteq> CELL_EMPTY}"
    by (auto simp: set_board_positions)
  then show ?thesis
    by (simp add: stone_count_def distinct_length_filter distinct_board_positions)
qed

lemma wf_state_count:
  assumes "wf_state g"
  shows "moves_count g = int (stone_count g)"
proof -
  let ?pos = "\<lambda>i. (row (moves g i), col (moves g i))"
  let ?I = "{0..<moves_count g}"
  have inj: "inj_on ?pos ?I"
    using assms unfolding wf_state_def inj_on_def by blast
  have "{(r, c). within_board r c \<and> cells g r c \<noteq> CELL_EMPTY} = ?pos ` ?I"
  proof (intro set_eqI iffI)
    fix p assume "p \<in> {(r, c). within_board r c \<and> cells g r c \<noteq> CELL_EMPTY}"
    then obtain r c where p: "p = (r, c)" "within_board r c" "cells g r c \<noteq> CELL_EMPTY"
      by auto
    then have "(r, c) \<in> set board_positions" by (simp add: set_board_positions)
    with assms p obtain i where "i \<in> ?I" "row (moves g i) = r" "col (moves g i) = c"
      unfolding wf_state_def by blast
    then show "p \<in> ?pos ` ?I" using p by auto
  next
    fix p assume "p \<in> ?pos ` ?I"
    then show "p \<in> {(r, c). within_board r c \<and> cells g r c \<noteq> CELL_EMPTY}"
      using assms unfolding wf_state_def by auto
  qed
  then have "stone_count g = card (?pos ` ?I)" by (simp add: stone_count_card)
  also have "\<dots> = card ?I" using inj by (rule card_image)
  also have "\<dots> = nat (moves_count g)" by simp
  finally show ?thesis using assms by (simp add: wf_state_def)
qed

lemma stone_count_less:
  assumes "within_board r c" "cells g r c = CELL_EMPTY"
  shows "stone_count g < 361"
proof -
  have "(r, c) \<in> set board_positions" using assms by (simp add: set_board_positions)
  moreover have "\<not> (case (r, c) of (r, c) \<Rightarrow> cells g r c \<noteq> CELL_EMPTY)" using assms by simp
  ultimately have "length (filter (\<lambda>(r, c). cells g r c \<noteq> CELL_EMPTY) board_positions)
      < length board_positions"
    by (rule length_filter_less)
  then show ?thesis by (simp add: stone_count_def length_board_positions)
qed

lemma wf_state_room:
  "wf_state g \<Longrightarrow> within_board r c \<Longrightarrow> cells g r c = CELL_EMPTY \<Longrightarrow> moves_count g < 361"
  using wf_state_count[of g] stone_count_less[of r c g] by simp

lemma wf_state_init: "wf_state init_game"
  by (simp add: wf_state_def init_game_def)

lemma set_cell_same [simp]: "set_cell b r c v r c = v"
  by (simp add: set_cell_def)

lemma set_cell_other [simp]: "(r', c') \<noteq> (r, c) \<Longrightarrow> set_cell b r c v r' c' = b r' c'"
  by (auto simp: set_cell_def)

lemma wf_state_stone_put:
  assumes wf: "wf_state g" and ok: "within_board r c" "cells g r c = CELL_EMPTY"
    and flags: "fin = 0 \<longrightarrow> w = 0"
  shows "wf_state ((stone_put g r c)\<lparr>finished := fin, winner := w, current_player := p\<rparr>)"
proof -
  have room: "moves_count g < 361" using wf ok by (rule wf_state_room)
  define n where "n = moves_count g"
  define v where "v = (if current_player g = 1 then CELL_BLACK else CELL_WHITE)"
  define m where "m = \<lparr>row = r, col = c, player = current_player g\<rparr>"
  define g' where "g' = (stone_put g r c)\<lparr>finished := fin, winner := w, current_player := p\<rparr>"
  have cells': "cells g' = set_cell (cells g) r c v"
    and moves': "moves g' = (moves g)(n := m)"
    and count': "moves_count g' = n + 1"
    and fin': "finished g' = fin" and w': "winner g' = w"
    using room by (simp_all add: g'_def stone_put_def Let_def n_def v_def m_def)
  have v: "v \<noteq> CELL_EMPTY" by (simp add: v_def)
  have n0: "0 \<le> n" "n < 361" using wf room by (simp_all add: wf_state_def n_def)
  have old: "within_board (row (moves g i)) (col (moves g i))
             \<and> cells g (row (moves g i)) (col (moves g i)) \<noteq> CELL_EMPTY"
    if "0 \<le> i" "i < n" for i
    using wf that by (simp add: wf_state_def n_def)
  have old_ne: "(row (moves g i), col (moves g i)) \<noteq> (r, c)" if "0 \<le> i" "i < n" for i
    using old[OF that] ok by auto
  have dist: "(row (moves g i), col (moves g i)) \<noteq> (row (moves g j), col (moves g j))"
    if "0 \<le> i" "i < n" "0 \<le> j" "j < n" "i \<noteq> j" for i j
    using wf that by (simp add: wf_state_def n_def)
  have cover: "\<exists>i. 0 \<le> i \<and> i < n \<and> row (moves g i) = a \<and> col (moves g i) = b"
    if "within_board a b" "cells g a b \<noteq> CELL_EMPTY" for a b
  proof -
    have "(a, b) \<in> set board_positions" using that by (simp add: set_board_positions)
    with wf that show ?thesis unfolding wf_state_def n_def by fastforce
  qed
  have A: "within_board (row (moves g' i)) (col (moves g' i))
           \<and> cells g' (row (moves g' i)) (col (moves g' i)) \<noteq> CELL_EMPTY"
    if "0 \<le> i" "i < n + 1" for i
  proof (cases "i = n")
    case True
    then show ?thesis using ok v by (simp add: cells' moves' m_def)
  next
    case False
    then have "i < n" using that by simp
    then show ?thesis using old[of i] old_ne[of i] that False by (simp add: cells' moves')
  qed
  have B: "(row (moves g' i), col (moves g' i)) \<noteq> (row (moves g' j), col (moves g' j))"
    if "0 \<le> i" "i < n + 1" "0 \<le> j" "j < n + 1" "i \<noteq> j" for i j
  proof (cases "i = n")
    case True
    then show ?thesis using old_ne[of j] that by (auto simp: moves' m_def)
  next
    case False
    note i = this
    show ?thesis
    proof (cases "j = n")
      case True
      then show ?thesis using old_ne[of i] that by (auto simp: moves' m_def)
    next
      case False
      then show ?thesis using dist[of i j] that i by (simp add: moves')
    qed
  qed
  have C: "\<exists>i. 0 \<le> i \<and> i < n + 1 \<and> row (moves g' i) = a \<and> col (moves g' i) = b"
    if "within_board a b" "cells g' a b \<noteq> CELL_EMPTY" for a b
  proof (cases "(a, b) = (r, c)")
    case True
    then show ?thesis using n0 by (intro exI[of _ n]) (simp add: moves' m_def)
  next
    case False
    then have "cells g a b \<noteq> CELL_EMPTY" using that by (simp add: cells')
    from cover[OF that(1) this] obtain i where "0 \<le> i" "i < n" "row (moves g i) = a" "col (moves g i) = b"
      by blast
    then show ?thesis by (intro exI[of _ i]) (simp add: moves')
  qed
  have "wf_state g'"
    unfolding wf_state_def count' fin' w'
    using n0 A B C flags by (auto simp: set_board_positions Bex_def)
  then show ?thesis by (simp add: g'_def)
qed

lemma wf_state_place: "wf_state g \<Longrightarrow> wf_state (snd (place_stone g r c))"
proof (cases "finished g = 0 \<and> within_board r c \<and> cells g r c = CELL_EMPTY")
  case False
  assume "wf_state g"
  then show ?thesis using False place_stone_fail[of g r c] by auto
next
  case True
  assume wf: "wf_state g"
  have w0: "winner g = 0" using wf True by (simp add: wf_state_def)
  have fl: "finished (stone_put g r c) = finished g" "winner (stone_put g r c) = winner g"
           "current_player (stone_put g r c) = current_player g"
    by (simp_all add: stone_put_def Let_def)
  let ?s = "stone_put g r c"
  have res: "snd (place_stone g r c) =
     (if fst (check_win ?s r c) = 1 then ?s\<lparr>finished := 1, winner := current_player g\<rparr>
      else if moves_count ?s = BOARD_SIZE * BOARD_SIZE then ?s\<lparr>finished := 1, winner := 0\<rparr>
      else ?s\<lparr>current_player := (if current_player g = 1 then 2 else 1)\<rparr>)"
    using True by (intro place_stone_result) simp_all
  have e1: "?s\<lparr>finished := 1, winner := x, current_player := current_player g\<rparr>
            = ?s\<lparr>finished := 1, winner := x\<rparr>" for x
    using fl by (cases ?s) simp
  have e2: "?s\<lparr>finished := 0, winner := 0, current_player := x\<rparr> = ?s\<lparr>current_player := x\<rparr>" for x
    using fl True w0 by (cases ?s) simp
  have a: "wf_state (?s\<lparr>finished := 1, winner := x\<rparr>)" for x
    using wf_state_stone_put[OF wf, of r c 1 x "current_player g"] True by (simp only: e1) simp
  have b: "wf_state (?s\<lparr>current_player := x\<rparr>)" for x
    using wf_state_stone_put[OF wf, of r c 0 0 x] True by (simp only: e2) simp
  show ?thesis unfolding res using a b by simp
qed

lemma wf_state_undo: "wf_state g \<Longrightarrow> wf_state (snd (undo_last_move g))"
proof (cases "moves_count g \<le> 0")
  case True
  assume "wf_state g"
  then show ?thesis using True by (simp add: undo_last_move_def)
next
  case False
  assume wf: "wf_state g"
  define n where "n = moves_count g - 1"
  define last where "last = moves g n"
  define g' where "g' = snd (undo_last_move g)"
  have n0: "0 \<le> n" "n < 361" using wf False by (simp_all add: wf_state_def n_def)
  have old: "within_board (row (moves g i)) (col (moves g i))
             \<and> cells g (row (moves g i)) (col (moves g i)) \<noteq> CELL_EMPTY"
    if "0 \<le> i" "i < n + 1" for i
    using wf that by (simp add: wf_state_def n_def)
  have dist: "(row (moves g i), col (moves g i)) \<noteq> (row (moves g j), col (moves g j))"
    if "0 \<le> i" "i < n + 1" "0 \<le> j" "j < n + 1" "i \<noteq> j" for i j
    using wf that by (simp add: wf_state_def n_def)
  have cover: "\<exists>i. 0 \<le> i \<and> i < n + 1 \<and> row (moves g i) = a \<and> col (moves g i) = b"
    if "within_board a b" "cells g a b \<noteq> CELL_EMPTY" for a b
  proof -
    have "(a, b) \<in> set board_positions" using that by (simp add: set_board_positions)
    with wf that show ?thesis unfolding wf_state_def n_def by fastforce
  qed
  have inb: "within_board (row last) (col last)"
    using old[of n] n0 by (simp add: last_def)
  have cells': "cells g' = set_cell (cells g) (row last) (col last) CELL_EMPTY"
    and moves': "moves g' = moves g"
    and count': "moves_count g' = n"
    and fin': "finished g' = 0" and w': "winner g' = 0"
    and cp': "n = 0 \<longrightarrow> current_player g' = 1"
    using False inb
    by (simp_all add: g'_def undo_last_move_def Let_def n_def last_def)
  have A: "within_board (row (moves g' i)) (col (moves g' i))
           \<and> cells g' (row (moves g' i)) (col (moves g' i)) \<noteq> CELL_EMPTY"
    if "0 \<le> i" "i < n" for i
    using old[of i] dist[of i n] that by (simp add: cells' moves' last_def)
  have B: "(row (moves g' i), col (moves g' i)) \<noteq> (row (moves g' j), col (moves g' j))"
    if "0 \<le> i" "i < n" "0 \<le> j" "j < n" "i \<noteq> j" for i j
    using dist[of i j] that by (simp add: moves')
  have C: "\<exists>i. 0 \<le> i \<and> i < n \<and> row (moves g' i) = a \<and> col (moves g' i) = b"
    if "within_board a b" "cells g' a b \<noteq> CELL_EMPTY" for a b
  proof -
    have ne: "(a, b) \<noteq> (row last, col last)" using that by (auto simp: cells')
    then have "cells g a b \<noteq> CELL_EMPTY" using that by (simp add: cells')
    from cover[OF that(1) this] obtain i
      where i: "0 \<le> i" "i < n + 1" "row (moves g i) = a" "col (moves g i) = b"
      by blast
    then have "i \<noteq> n" using ne by (auto simp: last_def)
    then show ?thesis using i by (intro exI[of _ i]) (simp add: moves')
  qed
  have "wf_state g'"
    unfolding wf_state_def count' fin' w'
    using n0 A B C cp' by (auto simp: set_board_positions Bex_def)
  then show ?thesis by (simp add: g'_def)
qed

lemma wf_state_apply_op: "wf_state g \<Longrightarrow> wf_state (apply_op x g)"
  by (cases x) (simp_all add: wf_state_place wf_state_undo)

lemma wf_state_fold: "wf_state g \<Longrightarrow> wf_state (fold apply_op ops g)"
  by (induction ops arbitrary: g) (simp_all add: wf_state_apply_op)

lemma wf_state_play: "wf_state (play ops)"
  unfolding play_def by (rule wf_state_fold) (rule wf_state_init)

text \<open>
  C2. In every state that a sequence of \<^verbatim>\<open>place_stone\<close> and \<^verbatim>\<open>undo_last_move\<close> calls
  produces from \<^verbatim>\<open>init_game\<close>, \<^verbatim>\<open>moves_count\<close> is the number of non-empty cells of
  the board.
\<close>

theorem moves_count_is_stone_count:
  "moves_count (play ops) = int (stone_count (play ops))"
  using wf_state_play by (rule wf_state_count)

lemmas eval_defs =
  place_stone_def undo_last_move_def check_win_def init_game_def within_board_def
  set_cell_def switch_player_def dr_def dc_def Let_def
  win_walk_fwd.simps win_walk_bwd.simps

lemma play_example:
  "moves_count (play [Place 9 9, Place 9 10, Undo]) = 1"
  by (simp add: play_def eval_defs)

theorem moves_count_is_stone_count_witness:
  "moves_count (play [Place 9 9, Place 9 10, Undo]) = 1
   \<and> stone_count (play [Place 9 9, Place 9 10, Undo]) = 1"
  using moves_count_is_stone_count[of "[Place 9 9, Place 9 10, Undo]"]
  by (simp add: play_example)

lemma set_cell_undo:
  "b r c = CELL_EMPTY \<Longrightarrow> set_cell (set_cell b r c v) r c CELL_EMPTY = b"
  by (auto simp: set_cell_def fun_eq_iff)

lemma history_slot:
  "moves_count g \<le> n \<Longrightarrow> history (g\<lparr>moves := (moves g)(n := m)\<rparr>) = history g"
  by (simp add: history_def)

text \<open>
  C5 (as amended). Let \<^verbatim>\<open>place_stone\<close> succeed on a state with no winner recorded, with
  room in the move array, and with Black to move if the history is empty. Then
  \<^verbatim>\<open>undo_last_move\<close> right after it succeeds and gives back the state before the
  placement: the board, \<^verbatim>\<open>current_player\<close>, \<^verbatim>\<open>finished\<close>, \<^verbatim>\<open>winner\<close>,
  \<^verbatim>\<open>undo_count\<close>, \<^verbatim>\<open>moves_count\<close> and the history are those of the state before.
  Only the array entry just past the history differs: it keeps the undone move.
\<close>

theorem undo_after_place:
  assumes "finished g = 0" "within_board r c" "cells g r c = CELL_EMPTY"
    and "winner g = 0" "0 \<le> moves_count g" "moves_count g < BOARD_SIZE * BOARD_SIZE"
    and "moves_count g = 0 \<longrightarrow> current_player g = 1"
  shows "fst (place_stone g r c) = 1
    \<and> fst (undo_last_move (snd (place_stone g r c))) = 1
    \<and> snd (undo_last_move (snd (place_stone g r c)))
        = g\<lparr>moves := (moves g)(moves_count g := \<lparr>row = r, col = c, player = current_player g\<rparr>)\<rparr>
    \<and> history (snd (undo_last_move (snd (place_stone g r c)))) = history g"
proof -
  let ?m = "\<lparr>row = r, col = c, player = current_player g\<rparr>"
  let ?s = "stone_put g r c"
  have sp: "?s = g\<lparr>cells := set_cell (cells g) r c
                     (if current_player g = 1 then CELL_BLACK else CELL_WHITE),
                   moves := (moves g)(moves_count g := ?m),
                   moves_count := moves_count g + 1\<rparr>"
    using assms by (simp add: stone_put_def Let_def)
  have undo1: "fst (undo_last_move (?s\<lparr>finished := f, winner := w, current_player := p\<rparr>)) = 1"
    for f w p
    using assms by (simp add: sp undo_last_move_def Let_def)
  have undo2: "snd (undo_last_move (?s\<lparr>finished := f, winner := w, current_player := p\<rparr>))
      = g\<lparr>moves := (moves g)(moves_count g := ?m)\<rparr>" for f w p
    using assms
    by (intro GameState.equality) (auto simp: sp undo_last_move_def Let_def set_cell_undo)
  have undo: "undo_last_move (?s\<lparr>finished := f, winner := w, current_player := p\<rparr>)
      = (1, g\<lparr>moves := (moves g)(moves_count g := ?m)\<rparr>)" for f w p
    using undo1 undo2 by (simp add: prod_eq_iff)
  have fl: "current_player ?s = current_player g" by (simp add: sp)
  have e1: "?s\<lparr>finished := 1, winner := x\<rparr>
            = ?s\<lparr>finished := 1, winner := x, current_player := current_player g\<rparr>" for x
    using fl by (cases ?s) simp
  have e2: "?s\<lparr>current_player := x\<rparr> = ?s\<lparr>finished := 0, winner := 0, current_player := x\<rparr>" for x
    using assms by (intro GameState.equality) (simp_all add: sp)
  have res: "snd (place_stone g r c) =
     (if fst (check_win ?s r c) = 1 then ?s\<lparr>finished := 1, winner := current_player g\<rparr>
      else if moves_count ?s = BOARD_SIZE * BOARD_SIZE then ?s\<lparr>finished := 1, winner := 0\<rparr>
      else ?s\<lparr>current_player := (if current_player g = 1 then 2 else 1)\<rparr>)"
    using assms by (intro place_stone_result) simp_all
  have "undo_last_move (snd (place_stone g r c))
      = (1, g\<lparr>moves := (moves g)(moves_count g := ?m)\<rparr>)"
  proof -
    have u1: "undo_last_move (?s\<lparr>finished := 1, winner := x\<rparr>)
        = (1, g\<lparr>moves := (moves g)(moves_count g := ?m)\<rparr>)" for x
      by (subst e1) (rule undo)
    have u2: "undo_last_move (?s\<lparr>current_player := x\<rparr>)
        = (1, g\<lparr>moves := (moves g)(moves_count g := ?m)\<rparr>)" for x
      by (subst e2) (rule undo)
    show ?thesis unfolding res by (simp add: u1 u2)
  qed
  then show ?thesis
    using assms place_stone_ok[of g r c] by (simp add: history_slot)
qed

text \<open>The conditions on the state hold in every state of a game that accepts a stone.\<close>

lemma play_accepts:
  assumes "finished (play ops) = 0" "within_board r c" "cells (play ops) r c = CELL_EMPTY"
  shows "winner (play ops) = 0 \<and> 0 \<le> moves_count (play ops)
         \<and> moves_count (play ops) < BOARD_SIZE * BOARD_SIZE
         \<and> (moves_count (play ops) = 0 \<longrightarrow> current_player (play ops) = 1)"
  using wf_state_play[of ops] wf_state_room[OF wf_state_play assms(2,3)] assms(1)
  by (simp add: wf_state_def)

lemma five_black_place:
  "place_stone five_black 0 5 = (1, six_black)"
  by (simp add: five_black_def six_black_def place_stone_def check_win_def within_board_def
        Let_def dr_def dc_def win_walk_fwd.simps win_walk_bwd.simps set_cell_def fun_eq_iff)

theorem undo_after_place_witness:
  "fst (place_stone init_game 9 9) = 1
   \<and> snd (undo_last_move (snd (place_stone init_game 9 9)))
        = init_game\<lparr>moves := (moves init_game)(0 := \<lparr>row = 9, col = 9, player = 1\<rparr>)\<rparr>
   \<and> history (snd (undo_last_move (snd (place_stone init_game 9 9)))) = history init_game
   \<and> winner (snd (place_stone five_black 0 5)) = 1
   \<and> snd (undo_last_move (snd (place_stone five_black 0 5))) = five_black"
proof -
  have A: "fst (place_stone init_game 9 9) = 1
    \<and> fst (undo_last_move (snd (place_stone init_game 9 9))) = 1
    \<and> snd (undo_last_move (snd (place_stone init_game 9 9)))
        = init_game\<lparr>moves := (moves init_game)(moves_count init_game :=
            \<lparr>row = 9, col = 9, player = current_player init_game\<rparr>)\<rparr>
    \<and> history (snd (undo_last_move (snd (place_stone init_game 9 9)))) = history init_game"
    by (rule undo_after_place) (simp_all add: init_game_def within_board_def)
  have B: "fst (place_stone five_black 0 5) = 1
    \<and> fst (undo_last_move (snd (place_stone five_black 0 5))) = 1
    \<and> snd (undo_last_move (snd (place_stone five_black 0 5)))
        = five_black\<lparr>moves := (moves five_black)(moves_count five_black :=
            \<lparr>row = 0, col = 5, player = current_player five_black\<rparr>)\<rparr>
    \<and> history (snd (undo_last_move (snd (place_stone five_black 0 5)))) = history five_black"
    by (rule undo_after_place) (simp_all add: five_black_def within_board_def)
  have e: "five_black\<lparr>moves := (moves five_black)(moves_count five_black :=
            \<lparr>row = 0, col = 5, player = current_player five_black\<rparr>)\<rparr> = five_black"
    by (simp add: five_black_def fun_eq_iff)
  have i: "moves_count init_game = 0" "current_player init_game = 1"
    by (simp_all add: init_game_def)
  have w: "winner (snd (place_stone five_black 0 5)) = 1"
    by (simp add: five_black_place six_black_def)
  show ?thesis using A B w unfolding e i by (elim conjE, intro conjI) assumption+
qed

text \<open>
  The claim as written quantifies over every state and has the turn restored to the
  mover. With White to move on an empty history (as a replayed or resumed game may
  start) the placement succeeds and the undo hands the turn to Black. On the initial
  state itself the array entry 0 comes back holding the undone move.
\<close>

theorem undo_after_place_counterexample:
  "current_player (init_game\<lparr>current_player := 2\<rparr>) = 2
   \<and> fst (place_stone (init_game\<lparr>current_player := 2\<rparr>) 0 0) = 1
   \<and> fst (undo_last_move (snd (place_stone (init_game\<lparr>current_player := 2\<rparr>) 0 0))) = 1
   \<and> current_player (snd (undo_last_move (snd (place_stone (init_game\<lparr>current_player := 2\<rparr>) 0 0)))) = 1
   \<and> moves (snd (undo_last_move (snd (place_stone init_game 0 0)))) 0 = \<lparr>row = 0, col = 0, player = 1\<rparr>
   \<and> moves init_game 0 = \<lparr>row = 0, col = 0, player = 0\<rparr>"
  by (simp add: eval_defs)

section \<open>The counting loops and the runs\<close>

lemma walk_is_contiguous_aux:
  fixes f :: "int \<Rightarrow> int \<Rightarrow> int \<Rightarrow> int"
  assumes unfold: "\<And>r c cnt. f r c cnt = (if stone_at b ty r c then f (r + sr) (c + sc) (cnt + 1) else cnt)"
    and step: "(sr, sc) \<noteq> (0, 0)" "\<bar>sr\<bar> \<le> 1" "\<bar>sc\<bar> \<le> 1"
  shows "n = nat (20 - j) \<Longrightarrow> 1 \<le> j \<Longrightarrow> j \<le> 20 \<Longrightarrow>
         (\<forall>i. 1 \<le> i \<and> i < j \<longrightarrow> stone_at b ty (r + i * sr) (c + i * sc)) \<Longrightarrow>
         f (r + j * sr) (c + j * sc) cnt
           = cnt + int (length (takeWhile (\<lambda>i. stone_at b ty (r + i * sr) (c + i * sc)) [j .. 19]))"
proof (induction n arbitrary: j cnt)
  case 0
  then have j: "j = 20" by simp
  have "stone_at b ty (r + 1 * sr) (c + 1 * sc)" using 0 j by (intro 0(4)[rule_format]) simp
  then have "\<not> stone_at b ty (r + 20 * sr) (c + 20 * sc)"
    using step by (auto simp: stone_at_def within_board_def)
  then show ?case using j by (subst unfold) simp
next
  case (Suc n)
  then have j: "j \<le> 19" by simp
  have up: "[j .. 19] = j # [j + 1 .. 19]" using j by (simp add: upto_rec1)
  show ?case
  proof (cases "stone_at b ty (r + j * sr) (c + j * sc)")
    case False
    then show ?thesis by (subst unfold) (simp add: up)
  next
    case True
    have "f (r + j * sr) (c + j * sc) cnt = f (r + (j + 1) * sr) (c + (j + 1) * sc) (cnt + 1)"
      using True by (subst unfold) (simp add: algebra_simps)
    also have "\<dots> = (cnt + 1)
        + int (length (takeWhile (\<lambda>i. stone_at b ty (r + i * sr) (c + i * sc)) [j + 1 .. 19]))"
    proof (rule Suc.IH)
      show "n = nat (20 - (j + 1))" using Suc.prems by simp
      show "1 \<le> j + 1" "j + 1 \<le> 20" using Suc.prems j by simp_all
      show "\<forall>i. 1 \<le> i \<and> i < j + 1 \<longrightarrow> stone_at b ty (r + i * sr) (c + i * sc)"
      proof (intro allI impI)
        fix i assume "1 \<le> i \<and> i < j + 1"
        then have "i < j \<or> i = j" by auto
        then show "stone_at b ty (r + i * sr) (c + i * sc)"
          using True Suc.prems(4) \<open>1 \<le> i \<and> i < j + 1\<close> by auto
      qed
    qed
    finally show ?thesis using True by (simp add: up)
  qed
qed

lemma walk_is_contiguous:
  fixes f :: "int \<Rightarrow> int \<Rightarrow> int \<Rightarrow> int"
  assumes "\<And>r c cnt. f r c cnt = (if stone_at b ty r c then f (r + sr) (c + sc) (cnt + 1) else cnt)"
    and "(sr, sc) \<noteq> (0, 0)" "\<bar>sr\<bar> \<le> 1" "\<bar>sc\<bar> \<le> 1"
  shows "f (r + sr) (c + sc) cnt = cnt + contiguous b ty r c sr sc"
proof -
  have "f (r + 1 * sr) (c + 1 * sc) cnt
      = cnt + int (length (takeWhile (\<lambda>i. stone_at b ty (r + i * sr) (c + i * sc)) [1 .. 19]))"
    by (rule walk_is_contiguous_aux[OF assms, of 19]) auto
  then show ?thesis by (simp add: contiguous_def)
qed

lemma step_dr_dc: "(dr k, dc k) \<noteq> (0, 0)" "\<bar>dr k\<bar> \<le> 1" "\<bar>dc k\<bar> \<le> 1"
  "(- dr k, - dc k) \<noteq> (0, 0)" "\<bar>- dr k\<bar> \<le> 1" "\<bar>- dc k\<bar> \<le> 1"
  by (simp_all add: dr_def dc_def)

lemma win_walk_fwd_contiguous:
  "win_walk_fwd b me k (r + dr k) (c + dc k) cnt = cnt + contiguous b me r c (dr k) (dc k)"
  by (rule walk_is_contiguous[where f = "win_walk_fwd b me k"])
     (subst win_walk_fwd.simps, simp add: stone_at_def within_board_def, simp_all add: dr_def dc_def)

lemma win_walk_bwd_contiguous:
  "win_walk_bwd b me k (r - dr k) (c - dc k) cnt = cnt + contiguous b me r c (- dr k) (- dc k)"
proof -
  have u: "win_walk_bwd b me k r c cnt =
      (if stone_at b me r c then win_walk_bwd b me k (r + - dr k) (c + - dc k) (cnt + 1) else cnt)"
    for r c cnt
    by (subst win_walk_bwd.simps) (simp add: stone_at_def within_board_def)
  have "win_walk_bwd b me k (r + - dr k) (c + - dc k) cnt
      = cnt + contiguous b me r c (- dr k) (- dc k)"
    using u step_dr_dc(4-6) by (rule walk_is_contiguous)
  then show ?thesis by simp
qed

lemma contiguous_bounds: "0 \<le> contiguous b ty r c sr sc" "contiguous b ty r c sr sc \<le> 19"
proof -
  have "length (takeWhile (\<lambda>i. stone_at b ty (r + i * sr) (c + i * sc)) [1 .. 19])
      \<le> length [1 .. (19::int)]"
    by (rule length_takeWhile_le)
  then show "contiguous b ty r c sr sc \<le> 19" by (simp add: contiguous_def)
qed (simp add: contiguous_def)

lemma check_win_loop_iff:
  "fst (check_win_loop g me r c ks) = 1
     \<longleftrightarrow> (\<exists>k\<in>set ks. WIN_LENGTH \<le> axis_run (cells g) me r c (dr k) (dc k))"
proof (induction ks)
  case Nil
  show ?case by simp
next
  case (Cons k ks)
  have "win_walk_bwd (cells g) me k (r - dr k) (c - dc k)
          (win_walk_fwd (cells g) me k (r + dr k) (c + dc k) 1)
        = axis_run (cells g) me r c (dr k) (dc k)"
    by (simp add: win_walk_fwd_contiguous win_walk_bwd_contiguous axis_run_def)
  then show ?case using Cons.IH by (simp add: Let_def)
qed

lemma axis_run_flip: "axis_run b ty r c (- sr) (- sc) = axis_run b ty r c sr sc"
  by (simp add: axis_run_def)

lemma check_win_iff:
  "fst (check_win g r c) = 1
     \<longleftrightarrow> cells g r c \<noteq> CELL_EMPTY
         \<and> (\<exists>(sr, sc)\<in>set axes. WIN_LENGTH \<le> axis_run (cells g) (cells g r c) r c sr sc)"
proof -
  have "axis_run (cells g) me r c (- 1) 1 = axis_run (cells g) me r c 1 (- 1)" for me
    using axis_run_flip[of "cells g" me r c 1 "- 1"] by simp
  note flip = this
  have "fst (check_win g r c) = 1
      \<longleftrightarrow> cells g r c \<noteq> CELL_EMPTY
          \<and> fst (check_win_loop g (cells g r c) r c [0, 1, 2, 3]) = 1"
    by (simp add: check_win_def Let_def del: check_win_loop.simps)
  also have "\<dots> \<longleftrightarrow> cells g r c \<noteq> CELL_EMPTY
          \<and> (\<exists>k\<in>set [0, 1, 2, 3]. WIN_LENGTH \<le> axis_run (cells g) (cells g r c) r c (dr k) (dc k))"
    by (simp only: check_win_loop_iff)
  also have "\<dots> \<longleftrightarrow> cells g r c \<noteq> CELL_EMPTY
         \<and> (\<exists>(sr, sc)\<in>set axes. WIN_LENGTH \<le> axis_run (cells g) (cells g r c) r c sr sc)"
    by (simp add: axes_def dr_def dc_def flip)
  finally show ?thesis .
qed

lemma length_takeWhile_ge:
  "n \<le> length xs \<Longrightarrow> n \<le> length (takeWhile P xs) \<longleftrightarrow> (\<forall>i<n. P (xs ! i))"
proof (induction xs arbitrary: n)
  case Nil
  then show ?case by simp
next
  case (Cons x xs)
  show ?case
  proof (cases n)
    case 0
    then show ?thesis by simp
  next
    case (Suc m)
    then show ?thesis using Cons by (auto simp: less_Suc_eq_0_disj)
  qed
qed

lemma contiguous_ge:
  assumes "0 \<le> n" "n \<le> 19"
  shows "n \<le> contiguous b ty r c sr sc
     \<longleftrightarrow> (\<forall>i. 1 \<le> i \<and> i \<le> n \<longrightarrow> stone_at b ty (r + i * sr) (c + i * sc))"
proof -
  let ?P = "\<lambda>i. stone_at b ty (r + i * sr) (c + i * sc)"
  have len: "nat n \<le> length [1 .. (19::int)]" using assms by simp
  have "n \<le> contiguous b ty r c sr sc \<longleftrightarrow> nat n \<le> length (takeWhile ?P [1 .. 19])"
    using assms unfolding contiguous_def by linarith
  also have "\<dots> \<longleftrightarrow> (\<forall>i<nat n. ?P ([1 .. 19] ! i))"
    using len by (rule length_takeWhile_ge)
  also have "\<dots> \<longleftrightarrow> (\<forall>i. 1 \<le> i \<and> i \<le> n \<longrightarrow> ?P i)"
  proof (intro iffI allI impI)
    fix i assume a: "\<forall>i<nat n. ?P ([1 .. 19] ! i)" and i: "1 \<le> i \<and> i \<le> n"
    then have "nat (i - 1) < nat n" by simp
    with a have "?P ([1 .. 19] ! nat (i - 1))" by blast
    moreover have "[1 .. 19] ! nat (i - 1) = i" using i assms by simp
    ultimately show "?P i" by simp
  next
    fix i assume a: "\<forall>i. 1 \<le> i \<and> i \<le> n \<longrightarrow> ?P i" and i: "i < nat n"
    have "[1 .. 19] ! i = 1 + int i" using i assms by simp
    moreover have "?P (1 + int i)" using a i by (intro a[rule_format]) simp
    ultimately show "?P ([1 .. 19] ! i)" by simp
  qed
  finally show ?thesis .
qed

lemma axis_run_window:
  assumes anchor: "stone_at b ty r c"
  shows "WIN_LENGTH \<le> axis_run b ty r c sr sc
     \<longleftrightarrow> (\<exists>k\<in>{0 .. WIN_LENGTH - 1}. \<forall>i\<in>{0 .. WIN_LENGTH - 1}.
            stone_at b ty (r + (i - k) * sr) (c + (i - k) * sc))"
proof
  let ?F = "contiguous b ty r c sr sc"
  let ?B = "contiguous b ty r c (- sr) (- sc)"
  assume "WIN_LENGTH \<le> axis_run b ty r c sr sc"
  then have sum: "5 \<le> ?F + ?B" by (simp add: axis_run_def)
  define k where "k = min ?B 5"
  have k: "0 \<le> k" "k \<le> 5" "k \<le> ?B" "5 - k \<le> ?F"
    using sum contiguous_bounds[of b ty r c sr sc] contiguous_bounds[of b ty r c "- sr" "- sc"]
    by (auto simp: k_def)
  have fwd: "stone_at b ty (r + j * sr) (c + j * sc)" if "1 \<le> j" "j \<le> 5 - k" for j
    using contiguous_ge[of "5 - k" b ty r c sr sc] k that by auto
  have bwd: "stone_at b ty (r + j * (- sr)) (c + j * (- sc))" if "1 \<le> j" "j \<le> k" for j
    using contiguous_ge[of k b ty r c "- sr" "- sc"] k that by auto
  have "stone_at b ty (r + (i - k) * sr) (c + (i - k) * sc)" if "0 \<le> i" "i \<le> 5" for i
  proof -
    consider "i - k = 0" | "1 \<le> i - k" | "1 \<le> k - i" by linarith
    then show ?thesis
    proof cases
      case 1 then show ?thesis using anchor by simp
    next
      case 2 then show ?thesis using fwd[of "i - k"] that by simp
    next
      case 3
      have "(k - i) * (- sr) = (i - k) * sr" "(k - i) * (- sc) = (i - k) * sc"
        by (simp_all add: algebra_simps)
      then show ?thesis using bwd[of "k - i"] 3 that by simp
    qed
  qed
  then show "\<exists>k\<in>{0 .. WIN_LENGTH - 1}. \<forall>i\<in>{0 .. WIN_LENGTH - 1}.
      stone_at b ty (r + (i - k) * sr) (c + (i - k) * sc)"
    using k by (intro bexI[of _ k]) auto
next
  let ?F = "contiguous b ty r c sr sc"
  let ?B = "contiguous b ty r c (- sr) (- sc)"
  assume "\<exists>k\<in>{0 .. WIN_LENGTH - 1}. \<forall>i\<in>{0 .. WIN_LENGTH - 1}.
      stone_at b ty (r + (i - k) * sr) (c + (i - k) * sc)"
  then obtain k where k: "0 \<le> k" "k \<le> 5"
    and w: "\<And>i. 0 \<le> i \<Longrightarrow> i \<le> 5 \<Longrightarrow> stone_at b ty (r + (i - k) * sr) (c + (i - k) * sc)"
    by auto
  have "5 - k \<le> ?F"
  proof -
    have "\<forall>j. 1 \<le> j \<and> j \<le> 5 - k \<longrightarrow> stone_at b ty (r + j * sr) (c + j * sc)"
    proof (intro allI impI)
      fix j assume j: "1 \<le> j \<and> j \<le> 5 - k"
      then show "stone_at b ty (r + j * sr) (c + j * sc)" using w[of "k + j"] k by simp
    qed
    then show ?thesis using contiguous_ge[of "5 - k" b ty r c sr sc] k by simp
  qed
  moreover have "k \<le> ?B"
  proof -
    have "\<forall>j. 1 \<le> j \<and> j \<le> k \<longrightarrow> stone_at b ty (r + j * (- sr)) (c + j * (- sc))"
    proof (intro allI impI)
      fix j assume j: "1 \<le> j \<and> j \<le> k"
      have "(k - j - k) * sr = j * (- sr)" "(k - j - k) * sc = j * (- sc)"
        by (simp_all add: algebra_simps)
      then show "stone_at b ty (r + j * (- sr)) (c + j * (- sc))"
        using w[of "k - j"] k j by simp
    qed
    then show ?thesis using contiguous_ge[of k b ty r c "- sr" "- sc"] k by simp
  qed
  ultimately show "WIN_LENGTH \<le> axis_run b ty r c sr sc" by (simp add: axis_run_def)
qed

lemma six_in_line_iff:
  "stone_at b ty r c \<Longrightarrow>
   six_in_line b ty r c \<longleftrightarrow> (\<exists>(sr, sc)\<in>set axes. WIN_LENGTH \<le> axis_run b ty r c sr sc)"
  unfolding six_in_line_def by (simp add: axis_run_window split_def)

lemma stone_put_cells:
  "cells (stone_put g r c)
     = set_cell (cells g) r c (if current_player g = 1 then CELL_BLACK else CELL_WHITE)"
  by (simp add: stone_put_def Let_def)

lemma place_stone_cells:
  "finished g = 0 \<Longrightarrow> within_board r c \<Longrightarrow> cells g r c = CELL_EMPTY \<Longrightarrow>
   cells (snd (place_stone g r c))
     = set_cell (cells g) r c (if current_player g = 1 then CELL_BLACK else CELL_WHITE)"
  by (simp add: place_stone_result stone_put_cells)

lemma place_stone_wins_iff:
  assumes "finished g = 0" "within_board r c" "cells g r c = CELL_EMPTY"
  shows "fst (check_win (stone_put g r c) r c) = 1
     \<longleftrightarrow> six_in_line (cells (snd (place_stone g r c))) (cells (snd (place_stone g r c)) r c) r c"
proof -
  let ?me = "if current_player g = 1 then CELL_BLACK else CELL_WHITE"
  let ?b = "set_cell (cells g) r c ?me"
  have b: "cells (snd (place_stone g r c)) = ?b" using assms by (rule place_stone_cells)
  have me: "?b r c = ?me" "?me \<noteq> CELL_EMPTY" by simp_all
  have "stone_at ?b ?me r c" using assms by (simp add: stone_at_def)
  then have "six_in_line ?b ?me r c
      \<longleftrightarrow> (\<exists>(sr, sc)\<in>set axes. WIN_LENGTH \<le> axis_run ?b ?me r c sr sc)"
    by (rule six_in_line_iff)
  then show ?thesis
    unfolding b check_win_iff stone_put_cells using me by simp
qed

text \<open>
  C3. On a cell of the board that holds a stone, \<^verbatim>\<open>check_win\<close> returns 1 exactly when
  the run of the stone's colour through the cell, the cell itself counted once, is at
  least \<^verbatim>\<open>WIN_LENGTH\<close> on one of the four axes; on an empty cell it returns 0. A
  successful \<^verbatim>\<open>place_stone\<close> by Black or White therefore ends the game with the mover's
  colour as winner exactly when the new stone completes six of that colour in a line;
  otherwise it records no winner: the game goes on with \<^verbatim>\<open>winner\<close> as it was, or ends
  as a draw when the move array is full.
\<close>

theorem win_detection:
  assumes "within_board r c"
  shows "(cells g r c \<noteq> CELL_EMPTY \<longrightarrow>
            (fst (check_win g r c) = 1)
              = (\<exists>(sr, sc)\<in>set axes. WIN_LENGTH \<le> axis_run (cells g) (cells g r c) r c sr sc))
    \<and> (fst (check_win g r c) \<noteq> 1 \<longrightarrow> fst (check_win g r c) = 0)
    \<and> (cells g r c = CELL_EMPTY \<longrightarrow> fst (check_win g r c) = 0)
    \<and> (finished g = 0 \<and> cells g r c = CELL_EMPTY \<and> (current_player g = 1 \<or> current_player g = 2) \<longrightarrow>
         (let g' = snd (place_stone g r c); me = cells g' r c
          in cell_int me = current_player g
             \<and> (six_in_line (cells g') me r c \<longrightarrow> finished g' = 1 \<and> winner g' = cell_int me)
             \<and> (\<not> six_in_line (cells g') me r c \<longrightarrow>
                  finished g' = (if moves_count g' = BOARD_SIZE * BOARD_SIZE then 1 else 0)
                  \<and> winner g' = (if moves_count g' = BOARD_SIZE * BOARD_SIZE then 0 else winner g))))"
proof (intro conjI impI)
  assume "cells g r c \<noteq> CELL_EMPTY"
  then show "(fst (check_win g r c) = 1)
      = (\<exists>(sr, sc)\<in>set axes. WIN_LENGTH \<le> axis_run (cells g) (cells g r c) r c sr sc)"
    by (simp add: check_win_iff)
next
  assume "fst (check_win g r c) \<noteq> 1"
  then show "fst (check_win g r c) = 0" using check_win_fst[of g r c] by simp
next
  assume "cells g r c = CELL_EMPTY"
  then show "fst (check_win g r c) = 0" by (simp add: check_win_def)
next
  assume a: "finished g = 0 \<and> cells g r c = CELL_EMPTY \<and> (current_player g = 1 \<or> current_player g = 2)"
  let ?g' = "snd (place_stone g r c)"
  let ?s = "stone_put g r c"
  have ok: "finished g = 0" "within_board r c" "cells g r c = CELL_EMPTY" using a assms by simp_all
  have me: "cell_int (cells ?g' r c) = current_player g"
    using a by (auto simp: place_stone_cells[OF ok])
  have w: "fst (check_win ?s r c) = 1 \<longleftrightarrow> six_in_line (cells ?g') (cells ?g' r c) r c"
    using ok by (rule place_stone_wins_iff)
  have fl: "winner ?s = winner g" "finished ?s = 0"
    using ok by (simp_all add: stone_put_def Let_def)
  have res: "?g' =
     (if fst (check_win ?s r c) = 1 then ?s\<lparr>finished := 1, winner := current_player g\<rparr>
      else if moves_count ?s = BOARD_SIZE * BOARD_SIZE then ?s\<lparr>finished := 1, winner := 0\<rparr>
      else ?s\<lparr>current_player := (if current_player g = 1 then 2 else 1)\<rparr>)"
    using ok by (rule place_stone_result)
  have yes: "finished ?g' = 1 \<and> winner ?g' = cell_int (cells ?g' r c)"
    if "six_in_line (cells ?g') (cells ?g' r c) r c"
    using that w me by (subst (1 2) res) simp
  have no: "finished ?g' = (if moves_count ?g' = BOARD_SIZE * BOARD_SIZE then 1 else 0)
            \<and> winner ?g' = (if moves_count ?g' = BOARD_SIZE * BOARD_SIZE then 0 else winner g)"
    if "\<not> six_in_line (cells ?g') (cells ?g' r c) r c"
    using that w fl by (subst (1 2 3 4) res) simp
  show "let g' = ?g'; me = cells g' r c
        in cell_int me = current_player g
           \<and> (six_in_line (cells g') me r c \<longrightarrow> finished g' = 1 \<and> winner g' = cell_int me)
           \<and> (\<not> six_in_line (cells g') me r c \<longrightarrow>
                finished g' = (if moves_count g' = BOARD_SIZE * BOARD_SIZE then 1 else 0)
                \<and> winner g' = (if moves_count g' = BOARD_SIZE * BOARD_SIZE then 0 else winner g))"
    unfolding Let_def using me yes no by blast
qed

lemma six_black_line: "six_in_line (cells six_black) CELL_BLACK 0 5"
  unfolding six_in_line_def axes_def
  by (rule bexI[of _ "(0, 1)"], simp, rule bexI[of _ 5])
     (auto simp: stone_at_def within_board_def six_black_def)

lemma init_place99:
  "place_stone init_game 9 9 =
     (1, init_game\<lparr>cells := set_cell (cells init_game) 9 9 CELL_BLACK,
                    moves := (moves init_game)(0 := \<lparr>row = 9, col = 9, player = 1\<rparr>),
                    moves_count := 1, current_player := 2\<rparr>)"
  by (simp add: eval_defs)

lemma init_no_line:
  "\<not> six_in_line (cells (snd (place_stone init_game 9 9))) CELL_BLACK 9 9"
proof -
  have "fst (check_win (stone_put init_game 9 9) 9 9) \<noteq> 1"
    by (simp add: stone_put_def eval_defs)
  moreover have "cells (snd (place_stone init_game 9 9)) 9 9 = CELL_BLACK"
    by (simp add: init_place99)
  ultimately show ?thesis
    using place_stone_wins_iff[of init_game 9 9] by (simp add: init_game_def within_board_def)
qed

theorem win_detection_witness:
  "fst (check_win six_pending 0 5) = 1
   \<and> (\<exists>(sr, sc)\<in>set axes. WIN_LENGTH \<le> axis_run (cells six_pending) CELL_BLACK 0 5 sr sc)
   \<and> fst (check_win init_game 9 9) = 0
   \<and> finished (snd (place_stone five_black 0 5)) = 1
   \<and> winner (snd (place_stone five_black 0 5)) = 1
   \<and> finished (snd (place_stone init_game 9 9)) = 0
   \<and> winner (snd (place_stone init_game 9 9)) = 0"
proof -
  have wb: "within_board 0 5" "within_board 9 9" by (simp_all add: within_board_def)
  have c: "cells six_pending 0 5 = CELL_BLACK" "cells init_game 9 9 = CELL_EMPTY"
    "cells five_black 0 5 = CELL_EMPTY" "finished five_black = 0" "current_player five_black = 1"
    "finished init_game = 0" "current_player init_game = 1" "winner init_game = 0"
    by (simp_all add: six_pending_def six_black_def init_game_def five_black_def)
  have p5: "snd (place_stone five_black 0 5) = six_black" by (simp add: five_black_place)
  have s: "cells six_black 0 5 = CELL_BLACK" "finished six_black = 1" "winner six_black = 1"
    by (simp_all add: six_black_def)
  have p9: "cells (snd (place_stone init_game 9 9)) 9 9 = CELL_BLACK"
    "moves_count (snd (place_stone init_game 9 9)) = 1"
    by (simp_all add: init_place99)
  show ?thesis
    using win_detection[OF wb(1), of six_pending] win_detection[OF wb(2), of init_game]
      win_detection[OF wb(1), of five_black] check_win_six six_black_line init_no_line
    by (simp add: c p5 s p9 Let_def)
qed

text \<open>
  C9 (as amended). On a cell of the board \<^verbatim>\<open>check_win\<close> returns whether a win just
  occurred: 1 when the cell holds a stone and the run of its colour through the cell is
  at least \<^verbatim>\<open>WIN_LENGTH\<close> on one of the four axes, 0 otherwise. When it returns 0 the
  state is unchanged; when it returns 1 it has assigned the colour of the anchor cell to
  \<^verbatim>\<open>winner\<close> and changed nothing else.
\<close>

theorem check_win_effect:
  assumes "within_board r c"
  shows "fst (check_win g r c)
           = (if cells g r c \<noteq> CELL_EMPTY
                 \<and> (\<exists>(sr, sc)\<in>set axes.
                       WIN_LENGTH \<le> axis_run (cells g) (cells g r c) r c sr sc)
              then 1 else 0)
   \<and> snd (check_win g r c)
           = (if cells g r c \<noteq> CELL_EMPTY
                 \<and> (\<exists>(sr, sc)\<in>set axes.
                       WIN_LENGTH \<le> axis_run (cells g) (cells g r c) r c sr sc)
              then g\<lparr>winner := cell_int (cells g r c)\<rparr> else g)"
proof -
  let ?win = "cells g r c \<noteq> CELL_EMPTY
      \<and> (\<exists>(sr, sc)\<in>set axes. WIN_LENGTH \<le> axis_run (cells g) (cells g r c) r c sr sc)"
  have w: "fst (check_win g r c) = 1 \<longleftrightarrow> ?win" by (rule check_win_iff)
  have "fst (check_win g r c) = (if ?win then 1 else 0)"
    using w check_win_fst[of g r c] by (cases ?win) auto
  moreover have "snd (check_win g r c)
      = (if ?win then g\<lparr>winner := cell_int (cells g r c)\<rparr> else g)"
    using w check_win_snd[of g r c] by (cases ?win) auto
  ultimately show ?thesis by blast
qed

theorem check_win_effect_witness:
  "fst (check_win six_pending 0 5) = 1
   \<and> (\<exists>(sr, sc)\<in>set axes. WIN_LENGTH \<le> axis_run (cells six_pending) CELL_BLACK 0 5 sr sc)
   \<and> snd (check_win six_pending 0 5) = six_pending\<lparr>winner := 1\<rparr>
   \<and> fst (check_win init_game 0 0) = 0
   \<and> snd (check_win init_game 0 0) = init_game"
proof -
  have wb: "within_board 0 5" "within_board 0 0" by (simp_all add: within_board_def)
  have c: "cells six_pending 0 5 = CELL_BLACK" "cells init_game 0 0 = CELL_EMPTY"
    by (simp_all add: six_pending_def six_black_def init_game_def)
  have a: "fst (check_win six_pending 0 5) = 1" "snd (check_win six_pending 0 5) = six_pending\<lparr>winner := 1\<rparr>"
    by (simp_all add: check_win_six)
  have b: "\<exists>(sr, sc)\<in>set axes. WIN_LENGTH \<le> axis_run (cells six_pending) CELL_BLACK 0 5 sr sc"
    using check_win_effect[OF wb(1), of six_pending] a(1) unfolding c
    by (metis zero_neq_one)
  have d: "fst (check_win init_game 0 0) = 0 \<and> snd (check_win init_game 0 0) = init_game"
    using check_win_effect[OF wb(2), of init_game] unfolding c by simp
  show ?thesis using a b d by blast
qed

text \<open>
  The claim as written has \<^verbatim>\<open>winner\<close> unchanged. On the completed row the field is 0
  before the call and 1 after it.
\<close>

theorem check_win_pure_counterexample:
  "winner six_pending = 0 \<and> winner (snd (check_win six_pending 0 5)) = 1"
  by (simp add: check_win_six) (simp add: six_pending_def six_black_def)

section \<open>The heuristic score\<close>

lemma step_directions:
  "(fst (directions d), snd (directions d)) \<noteq> (0, 0)"
  "\<bar>fst (directions d)\<bar> \<le> 1" "\<bar>snd (directions d)\<bar> \<le> 1"
  "(- fst (directions d), - snd (directions d)) \<noteq> (0, 0)"
  "\<bar>- fst (directions d)\<bar> \<le> 1" "\<bar>- snd (directions d)\<bar> \<le> 1"
  by (simp_all add: directions_def)

lemma run_fwd_contiguous:
  "run_fwd b ty d (r + fst (directions d)) (c + snd (directions d)) cnt
     = cnt + contiguous b ty r c (fst (directions d)) (snd (directions d))"
proof -
  have u: "run_fwd b ty d r c cnt =
      (if stone_at b ty r c
       then run_fwd b ty d (r + fst (directions d)) (c + snd (directions d)) (cnt + 1) else cnt)"
    for r c cnt
    by (subst run_fwd.simps) (simp add: stone_at_def)
  show ?thesis using u step_directions(1-3) by (rule walk_is_contiguous)
qed

lemma run_bwd_contiguous:
  "run_bwd b ty d (r - fst (directions d)) (c - snd (directions d)) cnt
     = cnt + contiguous b ty r c (- fst (directions d)) (- snd (directions d))"
proof -
  have u: "run_bwd b ty d r c cnt =
      (if stone_at b ty r c
       then run_bwd b ty d (r + - fst (directions d)) (c + - snd (directions d)) (cnt + 1) else cnt)"
    for r c cnt
    by (subst run_bwd.simps) (simp add: stone_at_def)
  have "run_bwd b ty d (r + - fst (directions d)) (c + - snd (directions d)) cnt
     = cnt + contiguous b ty r c (- fst (directions d)) (- snd (directions d))"
    using u step_directions(4-6) by (rule walk_is_contiguous)
  then show ?thesis by simp
qed

lemma run_both:
  "run_bwd b ty d (r - fst (directions d)) (c - snd (directions d))
     (run_fwd b ty d (r + fst (directions d)) (c + snd (directions d)) 1)
   = axis_run b ty r c (fst (directions d)) (snd (directions d))"
  by (simp add: run_fwd_contiguous run_bwd_contiguous axis_run_def)

lemma evaluate_pos_loop_sum:
  "evaluate_pos_loop g r c st ot ds score =
     score + sum_list (map (\<lambda>d.
         (let self_run = axis_run (cells g) st r c (fst (directions d)) (snd (directions d));
              opp_run = axis_run (cells g) ot r c (fst (directions d)) (snd (directions d))
          in (if self_run \<ge> WIN_LENGTH then 100000 else self_run ^ 2 * 10)
             + (if opp_run \<ge> WIN_LENGTH then 90000 else opp_run ^ 2 * 9))) ds)"
  by (induction ds arbitrary: score) (simp_all add: run_both Let_def power2_eq_square)

lemma evaluate_pos_score:
  "evaluate_pos g r c p = heuristic_score (cells g) p r c"
  by (simp add: evaluate_pos_def heuristic_score_def evaluate_pos_loop_sum axes_def
        directions_def side_type_def other_type_def Let_def)

lemma axis_run_pos: "1 \<le> axis_run b ty r c sr sc"
  using contiguous_bounds[of b ty r c sr sc] contiguous_bounds[of b ty r c "- sr" "- sc"]
  by (simp add: axis_run_def)

lemma heuristic_score_nonneg: "0 \<le> heuristic_score b p r c"
  unfolding heuristic_score_def
  by (rule sum_list_nonneg) (auto simp: Let_def)

section \<open>The scans over the board\<close>

lemma fold_rows_cols:
  "fold (\<lambda>r s. fold (\<lambda>c s. f r c s) cs s) rs s
     = fold (\<lambda>(r, c) s. f r c s) (concat (map (\<lambda>r. map (\<lambda>c. (r, c)) cs) rs)) s"
  by (induction rs arbitrary: s) (simp_all add: fold_map comp_def)

lemma fold_board:
  "fold (\<lambda>r s. fold (\<lambda>c s. f r c s) board_range s) board_range s
     = fold (\<lambda>(r, c) s. f r c s) board_positions s"
  by (simp add: fold_rows_cols board_positions_def)

lemma fold_filter_skip:
  "(\<And>x s. \<not> P x \<Longrightarrow> f x s = s) \<Longrightarrow> fold f xs s = fold f (filter P xs) s"
  by (induction xs arbitrary: s) simp_all

lemma set_empty_cells:
  "set (empty_cells g) = {(r, c). within_board r c \<and> cells g r c = CELL_EMPTY}"
  by (auto simp: empty_cells_def set_board_positions)

lemma best_scan_fold:
  "best_scan g rnd jit i
     = fold (\<lambda>(r, c) s. best_step g rnd jit r c s) (empty_cells g) ((- 1, - 1, - 1), i)"
proof -
  have "fold (\<lambda>(r, c) s. best_step g rnd jit r c s) board_positions s
      = fold (\<lambda>(r, c) s. best_step g rnd jit r c s)
          (filter (\<lambda>(r, c). cells g r c = CELL_EMPTY) board_positions) s" for s
    by (rule fold_filter_skip) (auto simp: best_step_def)
  then show ?thesis by (simp add: best_scan_def fold_board empty_cells_def)
qed

lemma best_fold:
  fixes es :: "(int \<times> int) list" and g :: GameState and rnd :: rand_source
    and i :: nat and jit :: int
  defines "T \<equiv> \<lambda>es j. heuristic_score (cells g) (current_player g) (fst (es ! j)) (snd (es ! j))
                        + int (rnd (i + j)) mod jit"
  assumes jit: "0 < jit"
  shows "es \<noteq> [] \<Longrightarrow> \<forall>p\<in>set es. cells g (fst p) (snd p) = CELL_EMPTY \<Longrightarrow>
     \<exists>j<length es.
        fold (\<lambda>(r, c) s. best_step g rnd jit r c s) es ((- 1, - 1, - 1), i)
          = ((fst (es ! j), snd (es ! j), T es j), i + length es)
        \<and> (\<forall>j'<length es. T es j' \<le> T es j) \<and> (\<forall>j'<j. T es j' < T es j)"
proof (induction es rule: rev_induct)
  case Nil
  then show ?case by simp
next
  case (snoc x es)
  let ?n = "length es"
  have Tn: "T (es @ [x]) ?n = heuristic_score (cells g) (current_player g) (fst x) (snd x)
      + int (rnd (i + ?n)) mod jit"
    by (simp add: T_def)
  have Told: "T (es @ [x]) j = T es j" if "j < ?n" for j
    using that by (simp add: T_def nth_append)
  have pos: "0 \<le> T (es @ [x]) ?n"
    unfolding Tn using heuristic_score_nonneg[of "cells g" "current_player g" "fst x" "snd x"] jit
    by (simp add: add_nonneg_nonneg)
  have x: "cells g (fst x) (snd x) = CELL_EMPTY" using snoc.prems by simp
  show ?case
  proof (cases "es = []")
    case True
    then show ?thesis using x pos Tn
      by (cases x) (auto simp: best_step_def evaluate_pos_score Let_def)
  next
    case False
    with snoc obtain j where j: "j < ?n"
      and f: "fold (\<lambda>(r, c) s. best_step g rnd jit r c s) es ((- 1, - 1, - 1), i)
          = ((fst (es ! j), snd (es ! j), T es j), i + ?n)"
      and mx: "\<forall>j'<?n. T es j' \<le> T es j" and fst: "\<forall>j'<j. T es j' < T es j"
      by auto
    have stepx: "fold (\<lambda>(r, c) s. best_step g rnd jit r c s) (es @ [x]) ((- 1, - 1, - 1), i)
        = (if T (es @ [x]) ?n > T es j then ((fst x, snd x, T (es @ [x]) ?n), i + ?n + 1)
           else ((fst (es ! j), snd (es ! j), T es j), i + ?n + 1))"
    proof -
      have "fold (\<lambda>(r, c) s. best_step g rnd jit r c s) (es @ [x]) ((- 1, - 1, - 1), i)
         = best_step g rnd jit (fst x) (snd x)
             (fold (\<lambda>(r, c) s. best_step g rnd jit r c s) es ((- 1, - 1, - 1), i))"
        by (cases x) simp
      also have "\<dots> = best_step g rnd jit (fst x) (snd x)
             ((fst (es ! j), snd (es ! j), T es j), i + ?n)"
        by (simp only: f)
      finally show ?thesis
        using x by (simp add: best_step_def evaluate_pos_score Let_def Tn)
    qed
    show ?thesis
    proof (cases "T (es @ [x]) ?n > T es j")
      case True
      have "\<forall>j'<length (es @ [x]). T (es @ [x]) j' \<le> T (es @ [x]) ?n"
        using mx True Told by (auto simp: less_Suc_eq)
      moreover have "\<forall>j'<?n. T (es @ [x]) j' < T (es @ [x]) ?n"
        using mx True Told by (auto simp: less_Suc_eq intro: le_less_trans)
      ultimately show ?thesis
        using stepx True by (intro exI[of _ ?n]) simp
    next
      case False
      have "\<forall>j'<length (es @ [x]). T (es @ [x]) j' \<le> T (es @ [x]) j"
        using mx False Told j by (auto simp: less_Suc_eq)
      moreover have "\<forall>j'<j. T (es @ [x]) j' < T (es @ [x]) j"
        using fst Told j by auto
      ultimately show ?thesis
        using stepx False j Told by (intro exI[of _ j]) (simp add: nth_append)
    qed
  qed
qed

lemma fold_count:
  "fold (\<lambda>x n. if P x then n + 1 else n) xs (n::int) = n + int (length (filter P xs))"
  by (induction xs arbitrary: n) simp_all

lemma count_empty_length: "count_empty g = int (length (empty_cells g))"
proof -
  have "count_empty g
      = fold (\<lambda>(r, c) n. if cells g r c = CELL_EMPTY then n + 1 else n) board_positions 0"
    unfolding count_empty_def by (rule fold_board)
  also have "\<dots> = fold (\<lambda>p n. if (case p of (r, c) \<Rightarrow> cells g r c = CELL_EMPTY) then n + 1 else n)
      board_positions 0"
    by (simp add: split_def)
  also have "\<dots> = int (length (empty_cells g))"
    by (simp add: fold_count empty_cells_def)
  finally show ?thesis .
qed

lemma random_move_cols_char:
  "0 \<le> pick \<Longrightarrow>
   random_move_cols g r cs pick =
     (let es = filter (\<lambda>c. cells g r c = CELL_EMPTY) cs
      in if pick < int (length es) then Inl (snd (place_stone g r (es ! nat pick)))
         else Inr (pick - int (length es)))"
proof (induction cs arbitrary: pick)
  case Nil
  then show ?case by simp
next
  case (Cons c cs)
  show ?case
  proof (cases "cells g r c = CELL_EMPTY")
    case False
    then show ?thesis using Cons by simp
  next
    case True
    show ?thesis
    proof (cases "pick = 0")
      case True
      then show ?thesis using \<open>cells g r c = CELL_EMPTY\<close> by simp
    next
      case False
      then have p: "0 \<le> pick - 1" using Cons.prems by simp
      have n: "nat pick = Suc (nat (pick - 1))" using False Cons.prems by simp
      show ?thesis
        using True False Cons.IH[OF p] by (simp add: Let_def n)
    qed
  qed
qed

lemma random_move_rows_char:
  "0 \<le> pick \<Longrightarrow>
   random_move_rows g rs pick =
     (let es = filter (\<lambda>(r, c). cells g r c = CELL_EMPTY)
                 (concat (map (\<lambda>r. map (\<lambda>c. (r, c)) board_range) rs))
      in if pick < int (length es)
         then Inl (snd (place_stone g (fst (es ! nat pick)) (snd (es ! nat pick))))
         else Inr (pick - int (length es)))"
proof (induction rs arbitrary: pick)
  case Nil
  then show ?case by simp
next
  case (Cons r rs)
  let ?e1 = "filter (\<lambda>c. cells g r c = CELL_EMPTY) board_range"
  let ?rest = "filter (\<lambda>(r, c). cells g r c = CELL_EMPTY)
                 (concat (map (\<lambda>r. map (\<lambda>c. (r, c)) board_range) rs))"
  have es: "filter (\<lambda>(r, c). cells g r c = CELL_EMPTY)
                 (concat (map (\<lambda>r. map (\<lambda>c. (r, c)) board_range) (r # rs)))
            = map (\<lambda>c. (r, c)) ?e1 @ ?rest"
    by (simp add: filter_map comp_def)
  show ?case
  proof (cases "pick < int (length ?e1)")
    case True
    then have "nat pick < length ?e1" using Cons.prems by simp
    then show ?thesis
      unfolding random_move_rows.simps Let_def es using True Cons.prems
      by (simp add: random_move_cols_char Let_def nth_append)
  next
    case False
    then have p: "0 \<le> pick - int (length ?e1)" by simp
    have n: "nat pick - length ?e1 = nat (pick - int (length ?e1))" using False by simp
    have "\<not> nat pick < length ?e1" using False Cons.prems by simp
    then show ?thesis
      unfolding random_move_rows.simps Let_def es using False Cons.prems Cons.IH[OF p]
      by (simp add: random_move_cols_char Let_def nth_append n)
  qed
qed

lemma random_move_char:
  assumes "empty_cells g \<noteq> []"
  shows "random_move g rnd i =
     (1, snd (place_stone g (fst (empty_cells g ! (rnd i mod length (empty_cells g))))
                            (snd (empty_cells g ! (rnd i mod length (empty_cells g))))), i + 1)"
proof -
  let ?n = "length (empty_cells g)"
  have n: "0 < ?n" using assms by simp
  have pick: "int (rnd i) mod int ?n = int (rnd i mod ?n)" by (simp add: zmod_int)
  have lt: "int (rnd i mod ?n) < int ?n" using n by simp
  have "random_move_rows g board_range (int (rnd i mod ?n))
      = Inl (snd (place_stone g (fst (empty_cells g ! (rnd i mod ?n)))
                                (snd (empty_cells g ! (rnd i mod ?n)))))"
    using lt by (simp add: random_move_rows_char empty_cells_def board_positions_def Let_def)
  then show ?thesis
    using n by (simp add: random_move_def count_empty_length pick Let_def)
qed

lemma random_move_none: "empty_cells g = [] \<Longrightarrow> random_move g rnd i = (0, g, i)"
  by (simp add: random_move_def count_empty_length)

lemma empty_cells_nth:
  "j < length (empty_cells g) \<Longrightarrow>
   within_board (fst (empty_cells g ! j)) (snd (empty_cells g ! j))
   \<and> cells g (fst (empty_cells g ! j)) (snd (empty_cells g ! j)) = CELL_EMPTY"
  using nth_mem[of j "empty_cells g"] by (auto simp: set_empty_cells)

lemma best_move_char:
  assumes "empty_cells g \<noteq> []" "0 < jit"
  shows "\<exists>j<length (empty_cells g).
     best_move g rnd jit i
       = (snd (place_stone g (fst (empty_cells g ! j)) (snd (empty_cells g ! j))),
          i + length (empty_cells g))
     \<and> (\<forall>j'<length (empty_cells g). jittered_score g rnd jit i j' \<le> jittered_score g rnd jit i j)
     \<and> (\<forall>j'<j. jittered_score g rnd jit i j' < jittered_score g rnd jit i j)"
proof -
  let ?es = "empty_cells g"
  have "\<forall>p\<in>set ?es. cells g (fst p) (snd p) = CELL_EMPTY" by (auto simp: set_empty_cells)
  from best_fold[OF assms(2) assms(1) this, of rnd i]
  obtain j where j: "j < length ?es"
    and f: "best_scan g rnd jit i
        = ((fst (?es ! j), snd (?es ! j),
            heuristic_score (cells g) (current_player g) (fst (?es ! j)) (snd (?es ! j))
              + int (rnd (i + j)) mod jit), i + length ?es)"
    and mx: "\<forall>j'<length ?es.
        heuristic_score (cells g) (current_player g) (fst (?es ! j')) (snd (?es ! j'))
          + int (rnd (i + j')) mod jit
        \<le> heuristic_score (cells g) (current_player g) (fst (?es ! j)) (snd (?es ! j))
          + int (rnd (i + j)) mod jit"
    and fs: "\<forall>j'<j.
        heuristic_score (cells g) (current_player g) (fst (?es ! j')) (snd (?es ! j'))
          + int (rnd (i + j')) mod jit
        < heuristic_score (cells g) (current_player g) (fst (?es ! j)) (snd (?es ! j))
          + int (rnd (i + j)) mod jit"
    unfolding best_scan_fold by blast
  have "0 \<le> fst (?es ! j) \<and> 0 \<le> snd (?es ! j)"
    using empty_cells_nth[OF j] by (simp add: within_board_def)
  then have "best_move g rnd jit i
       = (snd (place_stone g (fst (?es ! j)) (snd (?es ! j))), i + length ?es)"
    by (simp add: best_move_def f)
  then show ?thesis
    using j mx fs by (intro exI[of _ j]) (simp add: jittered_score_def split_def)
qed

lemma best_move_none: "empty_cells g = [] \<Longrightarrow> best_move g rnd jit i = (g, i)"
  by (simp add: best_move_def best_scan_fold random_move_none)

lemma fold_invariant:
  "I s \<Longrightarrow> (\<And>x s. x \<in> set xs \<Longrightarrow> I s \<Longrightarrow> I (f x s)) \<Longrightarrow> I (fold f xs s)"
  by (induction xs arbitrary: s) simp_all

lemma threat_scan_cell:
  "threat_scan g opp = (tr, tc, tn) \<Longrightarrow>
   (tr, tc) = (- 1, - 1) \<or> (within_board tr tc \<and> cells g tr tc = CELL_EMPTY)"
proof -
  let ?I = "\<lambda>s::int \<times> int \<times> int.
      (fst s, fst (snd s)) = (- 1, - 1)
      \<or> (within_board (fst s) (fst (snd s)) \<and> cells g (fst s) (fst (snd s)) = CELL_EMPTY)"
  have "?I (fold (\<lambda>(r, c) s. threat_step g opp r c s) board_positions (- 1, - 1, 0))"
  proof (rule fold_invariant)
    show "?I (- 1, - 1, 0)" by simp
  next
    fix x s assume a: "x \<in> set board_positions" and s: "?I s"
    have "within_board (fst x) (snd x)" using a by (auto simp: set_board_positions)
    then obtain r c where x: "x = (r, c)" "within_board r c"
      by (metis prod.collapse)
    have "threat_step g opp r c s = s
        \<or> (cells g r c = CELL_EMPTY \<and> (\<exists>n. threat_step g opp r c s = (r, c, n)))"
      by (cases s) (simp add: threat_step_def Let_def)
    then show "?I ((case x of (r, c) \<Rightarrow> threat_step g opp r c) s)"
      using x s by auto
  qed
  moreover assume "threat_scan g opp = (tr, tc, tn)"
  ultimately show ?thesis by (simp add: threat_scan_def fold_board)
qed

lemma find_append_list:
  "find P (xs @ ys) = (case find P xs of None \<Rightarrow> find P ys | Some x \<Rightarrow> Some x)"
  by (induction xs) simp_all

lemma find_map_list: "find P (map f xs) = map_option f (find (\<lambda>x. P (f x)) xs)"
  by (induction xs) simp_all

lemma find_filter_hd:
  "find P xs = (if filter P xs = [] then None else Some (hd (filter P xs)))"
  by (induction xs) simp_all

lemma tactic_cols_none:
  assumes "self = current_player g" "opp = (if self = 1 then 2 else 1)"
  shows "find (\<lambda>c. ai_wins_at g r c) cs = None \<Longrightarrow>
     tactic_cols g self opp r cs s
       = (fst s, if filter (\<lambda>c. ai_blocks_at g r c) cs = [] then snd s
                 else (r, last (filter (\<lambda>c. ai_blocks_at g r c) cs)))"
proof (induction cs arbitrary: s)
  case Nil
  show ?case by simp
next
  case (Cons c cs)
  then have nw: "\<not> ai_wins_at g r c" and rest: "find (\<lambda>c. ai_wins_at g r c) cs = None"
    by (simp_all split: if_splits)
  show ?case
  proof (cases "cells g r c = CELL_EMPTY")
    case False
    then show ?thesis using Cons.IH[OF rest] by (simp add: ai_blocks_at_def)
  next
    case True
    have w: "winner (snd (place_stone g r c)) \<noteq> self"
      using nw True assms by (simp add: ai_wins_at_def)
    have b: "winner (snd (place_stone (g\<lparr>current_player := opp\<rparr>) r c)) = opp
        \<longleftrightarrow> ai_blocks_at g r c"
      using True assms by (simp add: ai_blocks_at_def Let_def)
    show ?thesis
      using True w b Cons.IH[OF rest] by (simp add: Let_def)
  qed
qed

lemma tactic_cols_some:
  assumes "self = current_player g" "opp = (if self = 1 then 2 else 1)"
  shows "find (\<lambda>c. ai_wins_at g r c) cs = Some c \<Longrightarrow>
     fst (tactic_cols g self opp r cs s) = (r, c)"
proof (induction cs arbitrary: s)
  case Nil
  then show ?case by simp
next
  case (Cons x cs)
  show ?case
  proof (cases "ai_wins_at g r x")
    case True
    then have "cells g r x = CELL_EMPTY" "winner (snd (place_stone g r x)) = self"
      using assms by (simp_all add: ai_wins_at_def)
    then show ?thesis using Cons.prems True by (simp add: Let_def)
  next
    case False
    then have rest: "find (\<lambda>c. ai_wins_at g r c) cs = Some c" using Cons.prems by simp
    have "cells g r x \<noteq> CELL_EMPTY \<or> winner (snd (place_stone g r x)) \<noteq> self"
      using False assms by (simp add: ai_wins_at_def)
    then show ?thesis using Cons.IH[OF rest] by (auto simp: Let_def)
  qed
qed

lemma tactic_rows_none:
  assumes "self = current_player g" "opp = (if self = 1 then 2 else 1)"
  shows "fst s = (- 1, - 1) \<Longrightarrow>
     find (\<lambda>(r, c). ai_wins_at g r c) (concat (map (\<lambda>r. map (\<lambda>c. (r, c)) board_range) rs)) = None \<Longrightarrow>
     tactic_rows g self opp rs s
       = ((- 1, - 1),
          if filter (\<lambda>(r, c). ai_blocks_at g r c)
               (concat (map (\<lambda>r. map (\<lambda>c. (r, c)) board_range) rs)) = []
          then snd s
          else last (filter (\<lambda>(r, c). ai_blocks_at g r c)
                 (concat (map (\<lambda>r. map (\<lambda>c. (r, c)) board_range) rs))))"
proof (induction rs arbitrary: s)
  case Nil
  then show ?case by (simp add: prod_eq_iff)
next
  case (Cons r rs)
  let ?W = "\<lambda>(r, c). ai_wins_at g r c"
  let ?B = "\<lambda>(r, c). ai_blocks_at g r c"
  let ?ps = "concat (map (\<lambda>r. map (\<lambda>c. (r, c)) board_range) rs)"
  let ?bs = "filter (\<lambda>c. ai_blocks_at g r c) board_range"
  have f1: "find (\<lambda>c. ai_wins_at g r c) board_range = None" and f2: "find ?W ?ps = None"
    using Cons.prems(2)
    by (auto simp: find_append_list find_map_list split: option.splits)
  define s' where "s' = tactic_cols g self opp r board_range s"
  have s': "s' = (fst s, if ?bs = [] then snd s else (r, last ?bs))"
    unfolding s'_def using f1 by (rule tactic_cols_none[OF assms])
  then have fs': "fst s' = (- 1, - 1)" using Cons.prems(1) by simp
  have fl: "filter ?B (concat (map (\<lambda>r. map (\<lambda>c. (r, c)) board_range) (r # rs)))
      = map (\<lambda>c. (r, c)) ?bs @ filter ?B ?ps"
    by (simp add: filter_map comp_def)
  have "tactic_rows g self opp (r # rs) s = tactic_rows g self opp rs s'"
    using fs' by (simp add: s'_def Let_def)
  also have "\<dots> = ((- 1, - 1), if filter ?B ?ps = [] then snd s' else last (filter ?B ?ps))"
    using fs' f2 by (rule Cons.IH)
  also have "\<dots> = ((- 1, - 1),
      if map (\<lambda>c. (r, c)) ?bs @ filter ?B ?ps = [] then snd s
      else last (map (\<lambda>c. (r, c)) ?bs @ filter ?B ?ps))"
    by (simp add: s' last_map)
  finally show ?case unfolding fl .
qed

lemma tactic_rows_some:
  assumes "self = current_player g" "opp = (if self = 1 then 2 else 1)"
  shows "fst s = (- 1, - 1) \<Longrightarrow> \<forall>r\<in>set rs. r \<noteq> - 1 \<Longrightarrow>
     find (\<lambda>(r, c). ai_wins_at g r c) (concat (map (\<lambda>r. map (\<lambda>c. (r, c)) board_range) rs)) = Some p \<Longrightarrow>
     fst (tactic_rows g self opp rs s) = p"
proof (induction rs arbitrary: s)
  case Nil
  then show ?case by simp
next
  case (Cons r rs)
  let ?W = "\<lambda>(r, c). ai_wins_at g r c"
  let ?ps = "concat (map (\<lambda>r. map (\<lambda>c. (r, c)) board_range) rs)"
  define s' where "s' = tactic_cols g self opp r board_range s"
  have r: "r \<noteq> - 1" using Cons.prems(2) by simp
  show ?case
  proof (cases "find (\<lambda>c. ai_wins_at g r c) board_range")
    case None
    then have f2: "find ?W ?ps = Some p"
      using Cons.prems(3) by (simp add: find_append_list find_map_list)
    have "s' = (fst s, if filter (\<lambda>c. ai_blocks_at g r c) board_range = [] then snd s
                       else (r, last (filter (\<lambda>c. ai_blocks_at g r c) board_range)))"
      unfolding s'_def using None by (rule tactic_cols_none[OF assms])
    then have fs': "fst s' = (- 1, - 1)" using Cons.prems(1) by simp
    have "tactic_rows g self opp (r # rs) s = tactic_rows g self opp rs s'"
      using fs' by (simp add: s'_def Let_def)
    moreover have "fst (tactic_rows g self opp rs s') = p"
      using fs' Cons.prems(2) f2 by (intro Cons.IH) simp_all
    ultimately show ?thesis by simp
  next
    case (Some c)
    then have p: "p = (r, c)"
      using Cons.prems(3) by (simp add: find_append_list find_map_list)
    have "fst s' = (r, c)" unfolding s'_def using Some by (rule tactic_cols_some[OF assms])
    then show ?thesis using r p by (simp add: s'_def[symmetric] Let_def)
  qed
qed

section \<open>The order of the scans\<close>

lemma sorted_rows_cols:
  "sorted_wrt (<) rs \<Longrightarrow> sorted_wrt (<) cs \<Longrightarrow>
   sorted_wrt (\<lambda>p q. row_major_le p q \<and> p \<noteq> q) (concat (map (\<lambda>r. map (\<lambda>c. (r, c)) cs) rs))"
proof (induction rs)
  case Nil
  show ?case by simp
next
  case (Cons r rs)
  have "sorted_wrt (\<lambda>p q. row_major_le p q \<and> p \<noteq> q) (map (\<lambda>c. (r, c)) cs)"
    using Cons.prems(2)
    by (simp add: sorted_wrt_map row_major_le_def) (erule sorted_wrt_mono_rel[rotated], auto)
  then show ?case
    using Cons by (auto simp: sorted_wrt_append row_major_le_def)
qed

lemma sorted_board_positions:
  "sorted_wrt (\<lambda>p q. row_major_le p q \<and> p \<noteq> q) board_positions"
proof -
  have "sorted_wrt (<) board_range"
    by (simp add: board_range_def strict_sorted_iff)
  then show ?thesis unfolding board_positions_def by (intro sorted_rows_cols)
qed

lemma row_major_le_refl: "row_major_le p p"
  by (simp add: row_major_le_def)

lemma hd_filter_first:
  assumes "filter P board_positions \<noteq> []" "q \<in> set (filter P board_positions)"
  shows "row_major_le (hd (filter P board_positions)) q"
proof -
  have s: "sorted_wrt (\<lambda>p q. row_major_le p q \<and> p \<noteq> q) (filter P board_positions)"
    using sorted_board_positions by (rule sorted_wrt_filter)
  obtain x xs where e: "filter P board_positions = x # xs"
    using assms(1) by (cases "filter P board_positions") auto
  show ?thesis using s assms(2) unfolding e by (auto simp: row_major_le_refl)
qed

lemma last_filter_last:
  assumes "filter P board_positions \<noteq> []" "q \<in> set (filter P board_positions)"
  shows "row_major_le q (last (filter P board_positions))"
proof -
  have s: "sorted_wrt (\<lambda>p q. row_major_le p q \<and> p \<noteq> q) (filter P board_positions)"
    using sorted_board_positions by (rule sorted_wrt_filter)
  obtain xs x where e: "filter P board_positions = xs @ [x]"
    using assms(1) by (cases "filter P board_positions" rule: rev_cases) auto
  show ?thesis using s assms(2) unfolding e by (auto simp: sorted_wrt_append row_major_le_refl)
qed

section \<open>The decision of \<^verbatim>\<open>ai_move\<close>\<close>

lemma winning_cells_empty: "set (winning_cells g) \<subseteq> set (empty_cells g)"
  by (auto simp: winning_cells_def empty_cells_def ai_wins_at_def)

lemma blocking_cells_empty: "set (blocking_cells g) \<subseteq> set (empty_cells g)"
  by (auto simp: blocking_cells_def empty_cells_def ai_blocks_at_def)

lemma board_range_ne: "\<forall>r\<in>set board_range. r \<noteq> - 1"
  by (simp add: board_range_def)

lemma tactic_scan_win:
  assumes "winning_cells g \<noteq> []"
  shows "fst (tactic_rows g (current_player g) (if current_player g = 1 then 2 else 1)
               board_range ((- 1, - 1), (- 1, - 1)))
         = hd (winning_cells g)"
proof -
  have "find (\<lambda>(r, c). ai_wins_at g r c)
          (concat (map (\<lambda>r. map (\<lambda>c. (r, c)) board_range) board_range))
        = Some (hd (winning_cells g))"
    using assms
    by (simp add: find_filter_hd winning_cells_def board_positions_def)
  then show ?thesis
    by (intro tactic_rows_some) (simp_all add: board_range_ne)
qed

lemma tactic_scan_none:
  assumes "winning_cells g = []"
  shows "tactic_rows g (current_player g) (if current_player g = 1 then 2 else 1)
               board_range ((- 1, - 1), (- 1, - 1))
         = ((- 1, - 1), if blocking_cells g = [] then (- 1, - 1) else last (blocking_cells g))"
proof -
  have "find (\<lambda>(r, c). ai_wins_at g r c)
          (concat (map (\<lambda>r. map (\<lambda>c. (r, c)) board_range) board_range)) = None"
    using assms
    by (simp add: find_filter_hd winning_cells_def board_positions_def)
  note F = this
  have "tactic_rows g (current_player g) (if current_player g = 1 then 2 else 1)
               board_range ((- 1, - 1), (- 1, - 1))
      = ((- 1, - 1),
          if filter (\<lambda>(r, c). ai_blocks_at g r c)
               (concat (map (\<lambda>r. map (\<lambda>c. (r, c)) board_range) board_range)) = []
          then (- 1, - 1)
          else last (filter (\<lambda>(r, c). ai_blocks_at g r c)
                 (concat (map (\<lambda>r. map (\<lambda>c. (r, c)) board_range) board_range))))"
    using tactic_rows_none[OF refl refl _ F, of "((- 1, - 1), (- 1, - 1))"] by simp
  then show ?thesis by (simp add: blocking_cells_def board_positions_def)
qed

lemma cell_on_board: "p \<in> set (empty_cells g) \<Longrightarrow> 0 \<le> fst p \<and> 0 \<le> snd p"
  by (auto simp: set_empty_cells within_board_def)

lemma ai_move_win:
  assumes "finished g = 0" "3 \<le> d" "winning_cells g \<noteq> []"
  shows "ai_move g d rnd i
     = (snd (place_stone g (fst (hd (winning_cells g))) (snd (hd (winning_cells g)))), i)"
proof -
  have "hd (winning_cells g) \<in> set (empty_cells g)"
    using assms(3) winning_cells_empty[of g] by (meson hd_in_set subsetD)
  then have "fst (hd (winning_cells g)) \<noteq> - 1" using cell_on_board by fastforce
  then show ?thesis
    using assms by (simp add: ai_move_def Let_def tactic_scan_win)
qed

lemma ai_move_block:
  assumes "finished g = 0" "3 \<le> d" "winning_cells g = []" "blocking_cells g \<noteq> []"
  shows "ai_move g d rnd i
     = (snd (place_stone g (fst (last (blocking_cells g))) (snd (last (blocking_cells g)))), i)"
proof -
  have "last (blocking_cells g) \<in> set (empty_cells g)"
    using assms(4) blocking_cells_empty[of g] by (meson last_in_set subsetD)
  then have "fst (last (blocking_cells g)) \<noteq> - 1" using cell_on_board by fastforce
  then show ?thesis
    using assms by (simp add: ai_move_def Let_def tactic_scan_none)
qed

lemma ai_move_rest:
  assumes "finished g = 0" "3 \<le> d" "winning_cells g = []" "blocking_cells g = []"
  shows "ai_move g d rnd i
     = (case threat_scan g (if current_player g = 1 then 2 else 1) of
          (threat_row, threat_col, threat_len) \<Rightarrow>
            if threat_len \<ge> 4 \<and> threat_row \<ge> 0 \<and> threat_col \<ge> 0
            then (snd (place_stone g threat_row threat_col), i)
            else best_move g rnd 3 i)"
  using assms by (simp add: ai_move_def Let_def tactic_scan_none)

text \<open>
  Whatever the difficulty, on an unfinished game with an empty cell \<^verbatim>\<open>ai_move\<close> ends in
  one call of \<^verbatim>\<open>place_stone\<close> on the state it was given, at an empty cell of the board.
\<close>

lemma ai_move_places:
  assumes "finished g = 0" "empty_cells g \<noteq> []"
  shows "\<exists>p\<in>set (empty_cells g). fst (ai_move g d rnd i) = snd (place_stone g (fst p) (snd p))"
proof -
  let ?es = "empty_cells g"
  have best: "\<exists>p\<in>set ?es. fst (best_move g rnd jit i) = snd (place_stone g (fst p) (snd p))"
    if "0 < jit" for jit
  proof -
    from best_move_char[OF assms(2) that, of rnd i] obtain j where
      "j < length ?es"
      "best_move g rnd jit i = (snd (place_stone g (fst (?es ! j)) (snd (?es ! j))), i + length ?es)"
      by blast
    then show ?thesis by (intro bexI[of _ "?es ! j"]) simp_all
  qed
  consider "d \<le> 1" | "d = 2" | "3 \<le> d" by linarith
  then show ?thesis
  proof cases
    case 1
    have "rnd i mod length ?es < length ?es" using assms(2) by simp
    then have "?es ! (rnd i mod length ?es) \<in> set ?es" by (rule nth_mem)
    then show ?thesis
      using 1 assms by (intro bexI[of _ "?es ! (rnd i mod length ?es)"])
        (simp_all add: ai_move_def random_move_char)
  next
    case 2
    then show ?thesis using assms(1) best[of 5] by (simp add: ai_move_def)
  next
    case 3
    show ?thesis
    proof (cases "winning_cells g = []")
      case False
      then have "hd (winning_cells g) \<in> set ?es"
        using winning_cells_empty[of g] by (meson hd_in_set subsetD)
      then show ?thesis
        using ai_move_win[OF assms(1) 3 False] by (intro bexI[of _ "hd (winning_cells g)"]) simp_all
    next
      case True
      note nowin = this
      show ?thesis
      proof (cases "blocking_cells g = []")
        case False
        then have "last (blocking_cells g) \<in> set ?es"
          using blocking_cells_empty[of g] by (meson last_in_set subsetD)
        then show ?thesis
          using ai_move_block[OF assms(1) 3 nowin False]
          by (intro bexI[of _ "last (blocking_cells g)"]) simp_all
      next
        case True
        obtain tr tc tn where t: "threat_scan g (if current_player g = 1 then 2 else 1) = (tr, tc, tn)"
          by (metis prod_cases3)
        show ?thesis
        proof (cases "tn \<ge> 4 \<and> tr \<ge> 0 \<and> tc \<ge> 0")
          case False
          then show ?thesis
            using ai_move_rest[OF assms(1) 3 nowin True] t best[of 3] by auto
        next
          case True
          then have "(tr, tc) \<in> set ?es"
            using threat_scan_cell[OF t] by (auto simp: set_empty_cells)
          then show ?thesis
            using ai_move_rest[OF assms(1) 3 nowin \<open>blocking_cells g = []\<close>] t True
            by (intro bexI[of _ "(tr, tc)"]) simp_all
        qed
      qed
    qed
  qed
qed

lemma ai_move_no_cell:
  assumes "finished g = 0" "empty_cells g = []"
  shows "fst (ai_move g d rnd i) = g"
proof -
  have w: "winning_cells g = []" "blocking_cells g = []"
    using assms(2) winning_cells_empty[of g] blocking_cells_empty[of g] by simp_all
  have t: "threat_scan g opp = (- 1, - 1, 0)" for opp
  proof -
    have "fold (\<lambda>(r, c) s. threat_step g opp r c s) board_positions s
        = fold (\<lambda>(r, c) s. threat_step g opp r c s)
            (filter (\<lambda>(r, c). cells g r c = CELL_EMPTY) board_positions) s" for s
      by (rule fold_filter_skip) (auto simp: threat_step_def)
    then show ?thesis using assms(2) by (simp add: threat_scan_def fold_board empty_cells_def)
  qed
  consider "d \<le> 1" | "d = 2" | "3 \<le> d" by linarith
  then show ?thesis
  proof cases
    case 1
    then show ?thesis using assms by (simp add: ai_move_def random_move_none)
  next
    case 2
    then show ?thesis using assms by (simp add: ai_move_def best_move_none)
  next
    case 3
    then show ?thesis
      using ai_move_rest[OF assms(1) 3 w] assms(2) by (simp add: t best_move_none)
  qed
qed

lemma ai_move_finished: "finished g \<noteq> 0 \<Longrightarrow> ai_move g d rnd i = (g, i)"
  by (simp add: ai_move_def)

lemma place_stone_count:
  assumes "finished g = 0" "within_board r c" "cells g r c = CELL_EMPTY"
    "moves_count g < BOARD_SIZE * BOARD_SIZE"
  shows "moves_count (snd (place_stone g r c)) = moves_count g + 1"
proof -
  have "moves_count (stone_put g r c) = moves_count g + 1"
    using assms(4) by (simp add: stone_put_def Let_def)
  then show ?thesis using assms(1-3) by (simp add: place_stone_result)
qed

text \<open>
  When \<^verbatim>\<open>moves_count\<close> is the number of stones, as in every state of a game, an empty
  cell means room in the move array.
\<close>

lemma count_gives_room:
  assumes "moves_count g = int (stone_count g)" "empty_cells g \<noteq> []"
  shows "0 \<le> moves_count g \<and> moves_count g < BOARD_SIZE * BOARD_SIZE"
proof -
  obtain p where "p \<in> set (empty_cells g)" using assms(2) by (meson last_in_set)
  then have "within_board (fst p) (snd p)" "cells g (fst p) (snd p) = CELL_EMPTY"
    by (auto simp: set_empty_cells)
  then have "stone_count g < 361" by (rule stone_count_less)
  then show ?thesis using assms(1) by simp
qed

text \<open>
  C8. What \<^verbatim>\<open>ai_move\<close> does to the game it is given is at most one \<^verbatim>\<open>place_stone\<close>:
  the state after the call is the state before it, or the result of \<^verbatim>\<open>place_stone\<close> on
  the state before it at an empty cell of the board. The simulations of the selection
  run on copies and leave no trace in the result.
\<close>

theorem ai_move_frame:
  "fst (ai_move g d rnd i) = g
   \<or> (\<exists>(r, c)\<in>set (empty_cells g).
        finished g = 0 \<and> fst (ai_move g d rnd i) = snd (place_stone g r c))"
proof (cases "finished g = 0")
  case False
  then show ?thesis by (simp add: ai_move_finished)
next
  case True
  show ?thesis
  proof (cases "empty_cells g = []")
    case True
    then show ?thesis using \<open>finished g = 0\<close> by (simp add: ai_move_no_cell)
  next
    case False
    from ai_move_places[OF True False, of d rnd i] show ?thesis
      using True by (auto simp: split_def)
  qed
qed

text \<open>
  C10 (as amended). On a finished game \<^verbatim>\<open>ai_move\<close> changes nothing. On an unfinished
  game with an empty cell and room in the move array, at every difficulty and for
  every random sequence, exactly one cell changes: an empty cell of the board takes the
  colour of the side to move, and \<^verbatim>\<open>moves_count\<close> grows by one. The array has room
  whenever \<^verbatim>\<open>moves_count\<close> is the number of stones and a cell is empty
  (\<open>count_gives_room\<close>), as in every state of a game.
\<close>

theorem ai_move_one_stone:
  "(finished g \<noteq> 0 \<longrightarrow> ai_move g d rnd i = (g, i))
   \<and> (finished g = 0 \<and> empty_cells g \<noteq> []
        \<and> 0 \<le> moves_count g \<and> moves_count g < BOARD_SIZE * BOARD_SIZE \<longrightarrow>
        (\<exists>(r, c)\<in>set (empty_cells g).
           cells g r c = CELL_EMPTY
           \<and> cells (fst (ai_move g d rnd i))
               = set_cell (cells g) r c (side_type (current_player g))
           \<and> moves_count (fst (ai_move g d rnd i)) = moves_count g + 1))"
proof (intro conjI impI)
  assume "finished g \<noteq> 0"
  then show "ai_move g d rnd i = (g, i)" by (rule ai_move_finished)
next
  assume a: "finished g = 0 \<and> empty_cells g \<noteq> []
        \<and> 0 \<le> moves_count g \<and> moves_count g < BOARD_SIZE * BOARD_SIZE"
  then obtain p where p: "p \<in> set (empty_cells g)"
    and m: "fst (ai_move g d rnd i) = snd (place_stone g (fst p) (snd p))"
    using ai_move_places[of g d rnd i] by blast
  have ok: "finished g = 0" "within_board (fst p) (snd p)" "cells g (fst p) (snd p) = CELL_EMPTY"
    using a p by (auto simp: set_empty_cells)
  have "cells (fst (ai_move g d rnd i))
      = set_cell (cells g) (fst p) (snd p) (side_type (current_player g))"
    unfolding m by (simp add: place_stone_cells[OF ok] side_type_def)
  moreover have "moves_count (fst (ai_move g d rnd i)) = moves_count g + 1"
    unfolding m using ok a by (intro place_stone_count) simp_all
  ultimately show "\<exists>(r, c)\<in>set (empty_cells g).
           cells g r c = CELL_EMPTY
           \<and> cells (fst (ai_move g d rnd i))
               = set_cell (cells g) r c (side_type (current_player g))
           \<and> moves_count (fst (ai_move g d rnd i)) = moves_count g + 1"
    using p ok by (intro bexI[of _ p]) (simp_all add: split_def)
qed

text \<open>
  C6. At difficulty 3 or more, on an unfinished game: if some empty cell wins for the
  side to move, \<^verbatim>\<open>ai_move\<close> plays the first such cell of the row-major scan; if none
  does and some empty cell is a win for the opponent, it plays the last such cell of the
  scan. No random value is consumed in either case.
\<close>

theorem tier3_win_then_block:
  assumes "finished g = 0" "3 \<le> d"
  shows "(winning_cells g \<noteq> [] \<longrightarrow>
            ai_move g d rnd i
              = (snd (place_stone g (fst (hd (winning_cells g))) (snd (hd (winning_cells g)))), i)
            \<and> (\<forall>q\<in>set (winning_cells g). row_major_le (hd (winning_cells g)) q))
       \<and> (winning_cells g = [] \<and> blocking_cells g \<noteq> [] \<longrightarrow>
            ai_move g d rnd i
              = (snd (place_stone g (fst (last (blocking_cells g))) (snd (last (blocking_cells g)))), i)
            \<and> (\<forall>q\<in>set (blocking_cells g). row_major_le q (last (blocking_cells g))))"
  using ai_move_win[OF assms, of rnd i] ai_move_block[OF assms, of rnd i]
    hd_filter_first[of "\<lambda>(r, c). ai_wins_at g r c"]
    last_filter_last[of "\<lambda>(r, c). ai_blocks_at g r c"]
  unfolding winning_cells_def[symmetric] blocking_cells_def[symmetric]
  by blast


section \<open>Examples of the decision\<close>

lemma board_positions_front:
  "take 6 board_positions = [(0, 0), (0, 1), (0, 2), (0, 3), (0, 4), (0, 5)]"
  by code_simp

lemma board_positions_back:
  "drop 355 board_positions = [(18, 13), (18, 14), (18, 15), (18, 16), (18, 17), (18, 18)]"
  by code_simp

lemma filter_split:
  "filter P xs = filter P (take n xs) @ filter P (drop n xs)"
  by (metis append_take_drop_id filter_append)

lemma five_black_wins: "ai_wins_at five_black 0 5"
  by (simp add: ai_wins_at_def five_black_place) (simp add: five_black_def six_black_def)

lemma five_black_winning:
  "winning_cells five_black \<noteq> [] \<and> hd (winning_cells five_black) = (0, 5)"
proof -
  have "filter (\<lambda>(r, c). ai_wins_at five_black r c) (take 6 board_positions) = [(0, 5)]"
    unfolding board_positions_front using five_black_wins
    by (simp add: ai_wins_at_def) (simp add: five_black_def)
  then have "winning_cells five_black
      = (0, 5) # filter (\<lambda>(r, c). ai_wins_at five_black r c) (drop 6 board_positions)"
    unfolding winning_cells_def
    by (subst filter_split[of _ _ 6]) simp
  then show ?thesis by simp
qed

lemma no_stone_no_line:
  assumes "\<forall>r' c'. b r' c' \<noteq> ty"
  shows "\<not> six_in_line (set_cell b r c ty) ty r c"
proof
  assume "six_in_line (set_cell b r c ty) ty r c"
  then obtain sr sc k where ax: "(sr, sc) \<in> set axes" and k: "0 \<le> k" "k \<le> 5"
    and w: "\<And>i. 0 \<le> i \<Longrightarrow> i \<le> 5 \<Longrightarrow>
        stone_at (set_cell b r c ty) ty (r + (i - k) * sr) (c + (i - k) * sc)"
    unfolding six_in_line_def by auto
  define i where "i = (if k = 0 then 1 else (0::int))"
  have i: "0 \<le> i" "i \<le> 5" "i - k \<noteq> 0" using k by (auto simp: i_def)
  have "(sr, sc) \<noteq> (0, 0)" using ax by (auto simp: axes_def)
  then have "(r + (i - k) * sr, c + (i - k) * sc) \<noteq> (r, c)" using i(3) by auto
  then have "set_cell b r c ty (r + (i - k) * sr) (c + (i - k) * sc)
      = b (r + (i - k) * sr) (c + (i - k) * sc)"
    by (rule set_cell_other)
  then show False using w[OF i(1,2)] assms by (simp add: stone_at_def)
qed

lemma black_threat_no_win: "winning_cells black_threat = []"
proof -
  have "\<not> ai_wins_at black_threat r c" if "within_board r c" for r c
  proof (cases "cells black_threat r c = CELL_EMPTY")
    case False
    then show ?thesis by (simp add: ai_wins_at_def)
  next
    case True
    have f: "finished black_threat = 0" by (simp add: black_threat_def)
    have b: "cells (snd (place_stone black_threat r c))
        = set_cell (cells black_threat) r c CELL_WHITE"
      using place_stone_cells[OF f that True] by (simp add: black_threat_def)
    have "\<forall>r' c'. cells black_threat r' c' \<noteq> CELL_WHITE" by (simp add: black_threat_def)
    then have "\<not> six_in_line (set_cell (cells black_threat) r c CELL_WHITE) CELL_WHITE r c"
      by (rule no_stone_no_line)
    then have "fst (check_win (stone_put black_threat r c) r c) \<noteq> 1"
      using place_stone_wins_iff[OF f that True] b by simp
    moreover have "moves_count (stone_put black_threat r c) = 6"
      "winner (stone_put black_threat r c) = 0"
      by (simp_all add: stone_put_def black_threat_def Let_def)
    ultimately have "winner (snd (place_stone black_threat r c)) = 0"
      using place_stone_result[OF f that True] by simp
    then show ?thesis by (simp add: ai_wins_at_def black_threat_def)
  qed
  then show ?thesis
    unfolding winning_cells_def by (auto simp: filter_empty_conv set_board_positions)
qed

lemma black_threat_blocks: "ai_blocks_at black_threat 18 13"
  by (simp add: ai_blocks_at_def black_threat_def place_stone_def check_win_def within_board_def
        Let_def dr_def dc_def win_walk_fwd.simps win_walk_bwd.simps set_cell_def)

lemma black_threat_blocking:
  "blocking_cells black_threat \<noteq> [] \<and> last (blocking_cells black_threat) = (18, 13)"
proof -
  have "filter (\<lambda>(r, c). ai_blocks_at black_threat r c) (drop 355 board_positions) = [(18, 13)]"
    unfolding board_positions_back using black_threat_blocks
    by (simp add: ai_blocks_at_def) (simp add: black_threat_def)
  then have "blocking_cells black_threat
      = filter (\<lambda>(r, c). ai_blocks_at black_threat r c) (take 355 board_positions) @ [(18, 13)]"
    unfolding blocking_cells_def
    by (subst filter_split[of _ _ 355]) simp
  then show ?thesis by simp
qed

theorem tier3_win_then_block_witness:
  "ai_move five_black 3 zero_source 0 = (six_black, 0)
   \<and> ai_move black_threat 3 zero_source 0 = (snd (place_stone black_threat 18 13), 0)
   \<and> cells (snd (place_stone black_threat 18 13)) 18 13 = CELL_WHITE"
proof -
  have f: "finished five_black = 0" "finished black_threat = 0"
    by (simp_all add: five_black_def black_threat_def)
  have c: "cells (snd (place_stone black_threat 18 13)) 18 13 = CELL_WHITE"
    by (subst place_stone_cells) (simp_all add: black_threat_def within_board_def)
  show ?thesis
    using tier3_win_then_block[OF f(1), of 3 zero_source 0]
          tier3_win_then_block[OF f(2), of 3 zero_source 0]
          five_black_winning black_threat_no_win black_threat_blocking c
    by (simp add: five_black_place)
qed

lemma five_black_empty: "(0, 5) \<in> set (empty_cells five_black)"
  by (simp add: set_empty_cells within_board_def five_black_def)


theorem ai_move_frame_witness:
  "fst (ai_move six_black 3 zero_source 0) = six_black
   \<and> fst (ai_move five_black 3 zero_source 0) = snd (place_stone five_black 0 5)
   \<and> cells five_black 0 5 = CELL_EMPTY"
proof -
  have "\<not> (\<exists>(r, c)\<in>set (empty_cells six_black).
        finished six_black = 0
        \<and> fst (ai_move six_black 3 zero_source 0) = snd (place_stone six_black r c))"
    by (simp add: six_black_def)
  then have "fst (ai_move six_black 3 zero_source 0) = six_black"
    using ai_move_frame[of six_black 3 zero_source 0] by blast
  moreover have "fst (ai_move five_black 3 zero_source 0) = snd (place_stone five_black 0 5)"
    using ai_move_win[of five_black 3 zero_source 0] five_black_winning
    by (simp add: five_black_def)
  moreover have "cells five_black 0 5 = CELL_EMPTY" by (simp add: five_black_def)
  ultimately show ?thesis by simp
qed

theorem ai_move_one_stone_witness:
  "ai_move six_black 2 zero_source 0 = (six_black, 0)
   \<and> (\<exists>(r, c)\<in>set (empty_cells five_black).
         cells five_black r c = CELL_EMPTY
         \<and> cells (fst (ai_move five_black 1 zero_source 0))
             = set_cell (cells five_black) r c CELL_BLACK
         \<and> moves_count (fst (ai_move five_black 1 zero_source 0)) = 11)"
proof -
  have a: "finished six_black \<noteq> 0" by (simp add: six_black_def)
  have b: "finished five_black = 0 \<and> empty_cells five_black \<noteq> []
      \<and> 0 \<le> moves_count five_black \<and> moves_count five_black < BOARD_SIZE * BOARD_SIZE"
    using five_black_empty by (auto simp: five_black_def)
  have c: "side_type (current_player five_black) = CELL_BLACK" "moves_count five_black + 1 = 11"
    by (simp_all add: side_type_def five_black_def)
  show ?thesis
    using ai_move_one_stone[of six_black 2 zero_source 0]
          ai_move_one_stone[of five_black 1 zero_source 0] a b
    unfolding c by blast
qed

lemma full_array_first: "empty_cells (init_game\<lparr>moves_count := 361\<rparr>) ! 0 = (0, 0)
   \<and> empty_cells (init_game\<lparr>moves_count := 361\<rparr>) \<noteq> []"
proof -
  have "filter (\<lambda>(r, c). cells (init_game\<lparr>moves_count := 361\<rparr>) r c = CELL_EMPTY)
          (take 6 board_positions)
        = [(0, 0), (0, 1), (0, 2), (0, 3), (0, 4), (0, 5)]"
    unfolding board_positions_front by (simp add: init_game_def)
  then have "empty_cells (init_game\<lparr>moves_count := 361\<rparr>)
      = [(0, 0), (0, 1), (0, 2), (0, 3), (0, 4), (0, 5)]
        @ filter (\<lambda>(r, c). cells (init_game\<lparr>moves_count := 361\<rparr>) r c = CELL_EMPTY)
            (drop 6 board_positions)"
    unfolding empty_cells_def by (subst filter_split[of _ _ 6]) simp
  then show ?thesis by simp
qed

text \<open>
  The claim as written asks for nothing but an unfinished game and an empty cell. With
  the move array full and the board empty, \<^verbatim>\<open>ai_move\<close> at difficulty 1 puts a black
  stone on \<open>(0,0)\<close>, and \<^verbatim>\<open>moves_count\<close> stays at 361: \<^verbatim>\<open>place_stone\<close> records a move
  only under its guard \<^verbatim>\<open>moves_count < BOARD_SIZE * BOARD_SIZE\<close>.
\<close>

theorem ai_move_full_array_counterexample:
  "finished (init_game\<lparr>moves_count := 361\<rparr>) = 0
   \<and> cells (init_game\<lparr>moves_count := 361\<rparr>) 0 0 = CELL_EMPTY
   \<and> moves_count (init_game\<lparr>moves_count := 361\<rparr>) = 361
   \<and> cells (fst (ai_move (init_game\<lparr>moves_count := 361\<rparr>) 1 zero_source 0)) 0 0 = CELL_BLACK
   \<and> moves_count (fst (ai_move (init_game\<lparr>moves_count := 361\<rparr>) 1 zero_source 0)) = 361"
proof -
  let ?g = "init_game\<lparr>moves_count := 361\<rparr>"
  have f: "finished ?g = 0" by (simp add: init_game_def)
  have "ai_move ?g 1 zero_source 0 = (snd (place_stone ?g 0 0), 1)"
    using random_move_char[of ?g zero_source 0] full_array_first f
    by (simp add: ai_move_def zero_source_def)
  moreover have "cells (snd (place_stone ?g 0 0)) 0 0 = CELL_BLACK
      \<and> moves_count (snd (place_stone ?g 0 0)) = 361"
    by (simp add: eval_defs)
  ultimately show ?thesis by (simp add: init_game_def)
qed


end
